theory Spec2Isabelle
  imports Complex_Main "HOL-Library.Multiset"
begin

section \<open>The Radicchi community-detection algorithm of Circulo\<close>

text \<open>
  This theory embeds \<^verbatim>\<open>circulo/algorithms/radicchi.py\<close>. The functions of the module
  keep their names. The graph library the module calls (igraph) is modelled by the
  functions named \<open>graph_...\<close>, written from the library's documented behaviour on
  undirected graphs.

  Conventions of the embedding:
  \<^item> an exception is a value \<open>Inl e\<close> of the result type \<open>error + 'a\<close>;
  \<^item> Python integers are \<open>int\<close>; vertex indices, which are never negative, are \<open>nat\<close>;
  \<^item> the floating-point scores are quotients of small integers or \<open>float('inf')\<close>; they
    are modelled by exact rationals extended with \<open>Infinity\<close>, which orders and
    identifies them as IEEE doubles do as long as the degrees stay far below \<open>2^26\<close>;
  \<^item> the Python set \<open>edges\<close> is a duplicate-free list, and the order in which a
    \<^verbatim>\<open>for\<close> loop visits a set is a parameter of the model (\<open>iteration\<close>);
    the sets of neighbours are HOL sets.
\<close>

subsection \<open>Errors\<close>

datatype error = InvalidMeasure | InvalidVertex | NoSuchEdge | IndexError | TypeError

definition ebind :: "error + 'a \<Rightarrow> ('a \<Rightarrow> error + 'b) \<Rightarrow> error + 'b" where
  "ebind m f = (case m of Inl e \<Rightarrow> Inl e | Inr x \<Rightarrow> f x)"

text \<open>\<open>xs[i]\<close> on a Python list, for an index that is not negative.\<close>

definition get :: "'a list \<Rightarrow> nat \<Rightarrow> error + 'a" where
  "get xs i = (if i < length xs then Inr (xs ! i) else Inl IndexError)"

text \<open>A comprehension or loop whose body may raise: the first exception ends it.\<close>

fun map_err :: "('a \<Rightarrow> error + 'b) \<Rightarrow> 'a list \<Rightarrow> error + 'b list" where
  "map_err f [] = Inr []"
| "map_err f (x # xs) = ebind (f x) (\<lambda>y. ebind (map_err f xs) (\<lambda>ys. Inr (y # ys)))"

subsection \<open>The graph library\<close>

type_synonym edge = "nat \<times> nat"

text \<open>
  A graph object: the number of vertices, the edges in the order of their edge ids, each
  as the pair \<open>e.tuple\<close>, and the vertex attribute \<open>'id'\<close> (the empty list when the
  attribute is not set).
\<close>

record graph =
  vcount :: nat
  es :: "edge list"
  vs_id :: "nat list"

text \<open>
  What the library guarantees of an undirected simple graph: the endpoints are vertices,
  an edge is stored once, as (smaller, larger), and an attribute has one value per vertex.
\<close>

definition simple_graph :: "graph \<Rightarrow> bool" where
  "simple_graph g \<longleftrightarrow>
     list_all (\<lambda>e. fst e < snd e \<and> snd e < vcount g) (es g) \<and> distinct (es g)"

definition graph_copy :: "graph \<Rightarrow> graph" where
  "graph_copy g = g"

definition degree_at :: "graph \<Rightarrow> nat \<Rightarrow> int" where
  "degree_at g v =
     int (length (filter (\<lambda>e. fst e = v) (es g)) + length (filter (\<lambda>e. snd e = v) (es g)))"

text \<open>\<open>g.degree()\<close> and \<open>g.degree(nodes)\<close>.\<close>

definition graph_degree :: "graph \<Rightarrow> int list" where
  "graph_degree g = map (degree_at g) [0..<vcount g]"

definition graph_degree_of :: "graph \<Rightarrow> nat list \<Rightarrow> error + int list" where
  "graph_degree_of g nodes =
     (if list_all (\<lambda>v. v < vcount g) nodes then Inr (map (degree_at g) nodes)
      else Inl InvalidVertex)"

text \<open>\<open>g.neighbors(v)\<close>.\<close>

definition graph_neighbors :: "graph \<Rightarrow> nat \<Rightarrow> nat list" where
  "graph_neighbors g v =
     map snd (filter (\<lambda>e. fst e = v) (es g)) @ map fst (filter (\<lambda>e. snd e = v) (es g))"

text \<open>
  \<open>g.components()\<close>: the membership vector gives every vertex the smallest vertex of
  its connected component (labels are propagated along the edges, once per vertex); the
  clusters are listed by their first vertex, each in increasing order.
\<close>

definition relax :: "edge list \<Rightarrow> nat list \<Rightarrow> nat list" where
  "relax el lab =
     fold (\<lambda>e l. if fst e < length l \<and> snd e < length l
                  then (let m = min (l ! fst e) (l ! snd e) in l[fst e := m, snd e := m])
                  else l) el lab"

definition graph_membership :: "graph \<Rightarrow> nat list" where
  "graph_membership g = fold (\<lambda>_. relax (es g)) [0..<vcount g] [0..<vcount g]"

definition graph_components :: "graph \<Rightarrow> nat list list" where
  "graph_components g =
     (let m = graph_membership g; n = vcount g in
      map (\<lambda>r. filter (\<lambda>v. m ! v = m ! r) [0..<n])
          (filter (\<lambda>r. list_all (\<lambda>w. m ! w \<noteq> m ! r) [0..<r]) [0..<n]))"

text \<open>
  \<open>g.subgraph(vs)\<close>: the induced subgraph. The vertices kept are renumbered in
  increasing order, the edges keep their order, the attribute is carried over.
\<close>

definition graph_subgraph :: "graph \<Rightarrow> nat list \<Rightarrow> error + graph" where
  "graph_subgraph g vs =
     (if list_all (\<lambda>v. v < vcount g) vs then
        (let keep = filter (\<lambda>v. v \<in> set vs) [0..<vcount g];
             idx = (\<lambda>v. length (filter (\<lambda>w. w < v) keep))
         in Inr \<lparr>vcount = length keep,
                 es = map (\<lambda>e. (idx (fst e), idx (snd e)))
                        (filter (\<lambda>e. fst e \<in> set vs \<and> snd e \<in> set vs) (es g)),
                 vs_id = map (\<lambda>v. vs_id g ! v) (filter (\<lambda>v. v < length (vs_id g)) keep)\<rparr>)
      else Inl InvalidVertex)"

text \<open>\<open>g.delete_edges(pairs)\<close>: every pair must name an edge of the graph.\<close>

definition graph_delete_edges :: "graph \<Rightarrow> edge list \<Rightarrow> error + graph" where
  "graph_delete_edges g del =
     (if list_all (\<lambda>e. e \<in> set (es g)) del
      then Inr (g\<lparr>es := filter (\<lambda>e. e \<notin> set del) (es g)\<rparr>)
      else Inl NoSuchEdge)"

subsection \<open>Edge scores\<close>

datatype ecc = Finite rat | Infinity

fun ecc_less :: "ecc \<Rightarrow> ecc \<Rightarrow> bool" where
  "ecc_less (Finite a) (Finite b) = (a < b)"
| "ecc_less (Finite a) Infinity = True"
| "ecc_less Infinity b = False"

definition edge_clustering_coefficient_3 ::
  "nat \<Rightarrow> nat \<Rightarrow> int list \<Rightarrow> nat set list \<Rightarrow> error + ecc" where
  "edge_clustering_coefficient_3 u v degree neighbors =
     ebind (get degree u) (\<lambda>udeg.
     ebind (get degree v) (\<lambda>vdeg.
       let mdeg = min (udeg - 1) (vdeg - 1) in
       if mdeg = 0 then Inr Infinity
       else
         ebind (get neighbors u) (\<lambda>nu.
         ebind (get neighbors v) (\<lambda>nv.
           let cdeg = card (nu \<inter> nv) in
           Inr (Finite ((of_nat cdeg + 1) / of_int mdeg))))))"

definition edge_clustering_coefficient_4 ::
  "nat \<Rightarrow> nat \<Rightarrow> int list \<Rightarrow> nat set list \<Rightarrow> error + ecc" where
  "edge_clustering_coefficient_4 u v degree neighbors =
     ebind (get degree u) (\<lambda>udeg.
     ebind (get degree v) (\<lambda>vdeg.
       let mdeg = (udeg - 1) * (vdeg - 1) in
       if mdeg = 0 then Inr Infinity
       else
         ebind (get neighbors u) (\<lambda>nu.
         ebind (get neighbors v) (\<lambda>nv.
           let uneighbors = nu - {v}; vneighbors = nv - {u} in
           if \<forall>w\<in>uneighbors. w < length neighbors then
             (let num_squares = (\<Sum>w\<in>uneighbors. card ((neighbors ! w - {u}) \<inter> vneighbors))
              in Inr (Finite ((of_nat num_squares + 1) / of_int mdeg)))
           else Inl IndexError))))"

subsection \<open>Community predicates\<close>

fun strong_loop :: "int list \<Rightarrow> int list \<Rightarrow> nat list \<Rightarrow> error + bool" where
  "strong_loop community_degree degree [] = Inr True"
| "strong_loop community_degree degree (i # rest) =
     ebind (get community_degree i) (\<lambda>c.
     ebind (get degree i) (\<lambda>d.
       if c \<le> d - c then Inr False else strong_loop community_degree degree rest))"

definition is_strong_community :: "graph \<Rightarrow> nat list \<Rightarrow> error + bool" where
  "is_strong_community G nodes =
     ebind (graph_subgraph G nodes) (\<lambda>subgraph.
     ebind (graph_degree_of G nodes) (\<lambda>degree.
       let community_degree = graph_degree subgraph in
       strong_loop community_degree degree [0..<length nodes]))"

definition is_weak_community :: "graph \<Rightarrow> nat list \<Rightarrow> error + bool" where
  "is_weak_community G nodes =
     ebind (graph_subgraph G nodes) (\<lambda>subgraph.
     ebind (graph_degree_of G nodes) (\<lambda>degree.
       let indegree = graph_degree subgraph;
           tsum = sum_list degree;
           insum = sum_list indegree;
           outsum = tsum - insum
       in Inr (insum > outsum)))"

subsection \<open>Iteration order of Python sets\<close>

text \<open>
  The order in which a loop visits a Python set, or in which \<open>list(s)\<close> lists it, is
  not specified. The model takes it as a parameter: a ranking of the elements, which may
  depend on the content of the set; the elements are visited by increasing rank.
\<close>

record iteration =
  edge_rank :: "edge list \<Rightarrow> edge \<Rightarrow> nat"
  vertex_rank :: "nat list \<Rightarrow> nat \<Rightarrow> nat"

definition iterate_edges :: "iteration \<Rightarrow> edge list \<Rightarrow> edge list" where
  "iterate_edges io xs = sort_key (edge_rank io xs) xs"

definition iterate_vertices :: "iteration \<Rightarrow> nat list \<Rightarrow> nat list" where
  "iterate_vertices io xs = sort_key (vertex_rank io xs) xs"

subsection \<open>Pruning\<close>

record prune_result =
  pruned :: bool
  orig_communities :: "nat list list option"
  new_communities :: "nat list list option"
  remaining :: "nat list option"

definition is_community :: "string \<Rightarrow> graph \<Rightarrow> nat list \<Rightarrow> error + bool" where
  "is_community community_measure =
     (if community_measure = ''strong'' then is_strong_community else is_weak_community)"

definition prune_components :: "iteration \<Rightarrow> graph \<Rightarrow> graph \<Rightarrow> string \<Rightarrow> error + prune_result" where
  "prune_components io orig new community_measure =
     (let components = graph_components new;
          ids = vs_id new;
          new_components = components
      in
      ebind (map_err (\<lambda>component. map_err (get ids) component) new_components)
        (\<lambda>orig_components.
      ebind (map_err (is_community community_measure orig) orig_components) (\<lambda>flags.
        let community_indices = filter (\<lambda>i. flags ! i) [0..<length orig_components];
            orig_communities = map (\<lambda>i. orig_components ! i) community_indices;
            new_communities = map (\<lambda>i. new_components ! i) community_indices
        in
        if length community_indices > 1 then
          (let all_new_community_nodes = concat new_communities;
               all_new_nodes = [0..<vcount new];
               all_new_remaining_nodes =
                 iterate_vertices io
                   (filter (\<lambda>v. v \<notin> set all_new_community_nodes) all_new_nodes)
           in Inr \<lparr>pruned = True, orig_communities = Some orig_communities,
                   new_communities = Some new_communities,
                   remaining = Some all_new_remaining_nodes\<rparr>)
        else Inr \<lparr>pruned = False, orig_communities = None, new_communities = None,
                  remaining = None\<rparr>)))"

subsection \<open>The working state of one call\<close>

record state =
  g :: graph
  degree :: "int list"
  neighbors :: "nat set list"
  edges :: "edge list"
  n_components :: nat

definition init_state :: "graph \<Rightarrow> state" where
  "init_state gr =
     \<lparr>g = gr,
      degree = graph_degree gr,
      neighbors = map (\<lambda>v. set (graph_neighbors gr v)) [0..<vcount gr],
      edges = remdups (es gr),
      n_components = length (graph_components gr)\<rparr>"

text \<open>Python's \<open>not min_ecc\<close>: true of \<open>None\<close> and of the float zero.\<close>

fun falsy :: "ecc option \<Rightarrow> bool" where
  "falsy None = True"
| "falsy (Some (Finite x)) = (x = 0)"
| "falsy (Some Infinity) = False"

text \<open>The scoring loop (the \<^verbatim>\<open>for e in edges\<close> of \<open>radicchi_internal\<close>).\<close>

fun select_min ::
  "(edge \<Rightarrow> error + ecc) \<Rightarrow> edge list \<Rightarrow> edge list \<times> ecc option \<Rightarrow> error + edge list \<times> ecc option"
where
  "select_min score [] acc = Inr acc"
| "select_min score (e # rest) (min_edges, min_ecc) =
     (case score e of
        Inl err \<Rightarrow> Inl err
      | Inr ecc \<Rightarrow>
          (if falsy min_ecc \<or> ecc_less ecc (the min_ecc)
           then select_min score rest ([e], Some ecc)
           else if Some ecc = min_ecc
           then select_min score rest (min_edges @ [e], min_ecc)
           else select_min score rest (min_edges, min_ecc)))"

text \<open>The bookkeeping loop (the \<^verbatim>\<open>for min_edge in min_edges\<close>).\<close>

fun discard_edges :: "edge list \<Rightarrow> state \<Rightarrow> error + state" where
  "discard_edges [] st = Inr st"
| "discard_edges (min_edge # rest) st =
     (let u = fst min_edge; v = snd min_edge in
      if u < length (neighbors st) \<and> v < length (neighbors st)
         \<and> u < length (degree st) \<and> v < length (degree st)
      then
        (let edges1 = removeAll min_edge (edges st);
             nb1 = (neighbors st)[u := neighbors st ! u - {v}];
             nb2 = nb1[v := nb1 ! v - {u}];
             dg1 = (degree st)[u := degree st ! u - 1];
             dg2 = dg1[v := dg1 ! v - 1]
         in discard_edges rest (st\<lparr>edges := edges1, neighbors := nb2, degree := dg2\<rparr>))
      else Inl IndexError)"

text \<open>One pass of the loop body up to the component count: score, select, delete.\<close>

definition remove_weakest ::
  "iteration \<Rightarrow> (nat \<Rightarrow> nat \<Rightarrow> int list \<Rightarrow> nat set list \<Rightarrow> error + ecc) \<Rightarrow> state \<Rightarrow> error + state"
where
  "remove_weakest io edge_clustering_coefficient st =
     ebind (select_min (\<lambda>e. edge_clustering_coefficient (fst e) (snd e) (degree st) (neighbors st))
              (iterate_edges io (edges st)) ([], None)) (\<lambda>sel.
     let min_edges = fst sel in
     ebind (graph_delete_edges (g st) min_edges) (\<lambda>g'.
     discard_edges min_edges (st\<lparr>g := g'\<rparr>)))"

subsection \<open>The recursive splitter\<close>

text \<open>Facts the definition of the recursion needs: the congruence rules of the error
  combinators, and that every pass of the loop deletes an edge.\<close>

lemma ebind_cong [fundef_cong]:
  "m = m' \<Longrightarrow> (\<And>x. m' = Inr x \<Longrightarrow> f x = f' x) \<Longrightarrow> ebind m f = ebind m' f'"
  by (auto simp: ebind_def split: sum.splits)

lemma map_err_cong [fundef_cong]:
  "xs = ys \<Longrightarrow> (\<And>x. x \<in> set ys \<Longrightarrow> f x = f' x) \<Longrightarrow> map_err f xs = map_err f' ys"
proof (induction ys arbitrary: xs)
  case Nil
  then show ?case by simp
next
  case (Cons y ys)
  then show ?case by (auto intro!: ebind_cong)
qed


lemma select_min_nonempty:
  "select_min score xs acc = Inr sel \<Longrightarrow> (fst acc = [] \<longrightarrow> snd acc = None \<and> xs \<noteq> [])
     \<Longrightarrow> fst sel \<noteq> []"
proof (induction score xs acc rule: select_min.induct)
  case (1 score acc)
  then show ?case by simp
next
  case (2 score e rest min_edges min_ecc)
  then show ?case by (auto split: sum.splits if_splits)
qed

lemma discard_edges_g: "discard_edges del st = Inr st' \<Longrightarrow> g st' = g st"
proof (induction del arbitrary: st)
  case Nil
  then show ?case by simp
next
  case (Cons e del)
  then show ?case by (fastforce simp: Let_def split: if_splits)
qed

lemma graph_delete_edges_less:
  assumes "graph_delete_edges gr del = Inr gr'" and "del \<noteq> []"
  shows "length (es gr') < length (es gr)"
proof -
  from assms(2) obtain e where e: "e \<in> set del" by (cases del) auto
  from assms(1) have all: "list_all (\<lambda>e. e \<in> set (es gr)) del"
    and gr': "es gr' = filter (\<lambda>e. e \<notin> set del) (es gr)"
    by (auto simp: graph_delete_edges_def split: if_splits)
  from all e have "e \<in> set (es gr)" by (simp add: list_all_iff)
  with e show ?thesis unfolding gr' by (auto intro!: length_filter_less)
qed

lemma remove_weakest_less:
  assumes "remove_weakest io f st = Inr st'" and "edges st \<noteq> []"
  shows "length (es (g st')) < length (es (g st))"
proof -
  from assms(1) obtain sel gr' where
    sel: "select_min (\<lambda>e. f (fst e) (snd e) (degree st) (neighbors st))
            (iterate_edges io (edges st)) ([], None) = Inr sel"
    and del: "graph_delete_edges (g st) (fst sel) = Inr gr'"
    and dis: "discard_edges (fst sel) (st\<lparr>g := gr'\<rparr>) = Inr st'"
    by (auto simp: remove_weakest_def ebind_def Let_def split: sum.splits)
  have "iterate_edges io (edges st) \<noteq> []"
    using assms(2) by (metis iterate_edges_def length_sort length_0_conv)
  with sel have "fst sel \<noteq> []" by (rule_tac select_min_nonempty) auto
  with del have "length (es gr') < length (es (g st))" by (rule graph_delete_edges_less)
  moreover from dis have "g st' = gr'" by (auto dest: discard_edges_g)
  ultimately show ?thesis by simp
qed

lemma graph_subgraph_edges_le:
  "graph_subgraph gr vs = Inr s \<Longrightarrow> length (es s) \<le> length (es gr)"
  by (auto simp: graph_subgraph_def Let_def split: if_splits)

text \<open>
  \<open>radicchi_internal\<close> and its \<^verbatim>\<open>while True\<close> loop. The recursive calls pass no
  \<open>clustering\<close> argument, so the parameter takes its default, 3.
\<close>

function radicchi_internal ::
    "iteration \<Rightarrow> graph \<Rightarrow> graph \<Rightarrow> nat \<Rightarrow> string \<Rightarrow> nat \<Rightarrow> error + nat list list"
  and radicchi_while ::
    "iteration \<Rightarrow> graph \<Rightarrow> nat \<Rightarrow> string
       \<Rightarrow> (nat \<Rightarrow> nat \<Rightarrow> int list \<Rightarrow> nat set list \<Rightarrow> error + ecc) \<Rightarrow> state
       \<Rightarrow> error + nat list list"
where
  "radicchi_internal io G gr level measure' clustering =
     radicchi_while io G level measure'
       (if clustering = 3 then edge_clustering_coefficient_3 else edge_clustering_coefficient_4)
       (init_state gr)"
| "radicchi_while io G level measure' edge_clustering_coefficient st =
     (if length (edges st) = 0 then Inr []
      else
        ebind (remove_weakest io edge_clustering_coefficient st) (\<lambda>st'.
        let n_components_new = length (graph_components (g st')) in
        if n_components_new > n_components st' then
          ebind (prune_components io G (g st') measure') (\<lambda>result.
          let st'' = st'\<lparr>n_components := n_components_new\<rparr> in
          if pruned result then
            (case (orig_communities result, new_communities result, remaining result) of
               (Some orig_comms, Some new_comms, Some remaining_nodes) \<Rightarrow>
                 ebind (map_err (\<lambda>ic.
                          ebind (graph_subgraph (g st'') (snd ic)) (\<lambda>s.
                          ebind (radicchi_internal io G s (level + 1) measure' 3)
                            (\<lambda>subcommunities.
                          if length subcommunities = 0
                          then ebind (get orig_comms (fst ic)) (\<lambda>c. Inr [c])
                          else Inr subcommunities)))
                        (enumerate 0 new_comms)) (\<lambda>parts.
                 ebind (map_err (get (vs_id (g st''))) remaining_nodes) (\<lambda>orig_remaining.
                 ebind (graph_subgraph (g st'') remaining_nodes) (\<lambda>r.
                 ebind (radicchi_internal io G r (level + 1) measure' 3) (\<lambda>subcommunities.
                 let clustered = concat subcommunities;
                     isolated_remaining = filter (\<lambda>i. i \<notin> set clustered) orig_remaining
                 in Inr (concat parts @ map (\<lambda>i. [i]) isolated_remaining)))))
             | _ \<Rightarrow> Inl TypeError)
          else radicchi_while io G level measure' edge_clustering_coefficient st'')
        else radicchi_while io G level measure' edge_clustering_coefficient st'))"
  by pat_completeness auto

termination
  apply (relation "measure (\<lambda>x. case x of
            Inl (io, G, gr, level, m, c) \<Rightarrow> 2 * length (es gr) + 1
          | Inr (io, G, level, m, f, st) \<Rightarrow> 2 * length (es (g st)))")
       apply (simp_all add: init_state_def)
     apply (fastforce dest: remove_weakest_less graph_subgraph_edges_le)+
  done


subsection \<open>The entry point\<close>

text \<open>The labelling loops of \<open>radicchi\<close>; the result is the membership list given to
  \<open>VertexClustering\<close>.\<close>

fun label_group :: "nat \<Rightarrow> nat list \<Rightarrow> nat list \<Rightarrow> error + nat list" where
  "label_group i [] clustering = Inr clustering"
| "label_group i (v # l) clustering =
     (if v < length clustering then label_group i l (clustering[v := i]) else Inl IndexError)"

fun label_groups :: "(nat \<times> nat list) list \<Rightarrow> nat list \<Rightarrow> error + nat list" where
  "label_groups [] clustering = Inr clustering"
| "label_groups (il # rest) clustering =
     ebind (label_group (fst il) (snd il) clustering) (label_groups rest)"

definition radicchi :: "iteration \<Rightarrow> graph \<Rightarrow> string \<Rightarrow> error + nat list" where
  "radicchi io G measure' =
     (let gr = (graph_copy G)\<lparr>vs_id := [0..<vcount (graph_copy G)]\<rparr> in
      ebind (if measure' = ''weak'' then radicchi_internal io G gr 0 measure' 4
             else if measure' = ''strong'' then radicchi_internal io G gr 0 measure' 3
             else Inl InvalidMeasure) (\<lambda>result.
      label_groups (enumerate 0 result) (replicate (vcount G) 0)))"

subsection \<open>Example inputs\<close>

text \<open>The iteration that visits every set in the order of its list.\<close>

definition io0 :: iteration where
  "io0 = \<lparr>edge_rank = (\<lambda>_ _. 0), vertex_rank = (\<lambda>_ _. 0)\<rparr>"

text \<open>Two triangles joined by the bridge 2--3.\<close>

definition two_triangles :: graph where
  "two_triangles =
     \<lparr>vcount = 6, es = [(0,1),(0,2),(1,2),(2,3),(3,4),(3,5),(4,5)], vs_id = []\<rparr>"

text \<open>Two vertices and no edge.\<close>

definition two_isolated :: graph where
  "two_isolated = \<lparr>vcount = 2, es = [], vs_id = []\<rparr>"

text \<open>A membership list in which every vertex is alone in its community.\<close>

definition one_singleton_per_vertex :: "nat list \<Rightarrow> bool" where
  "one_singleton_per_vertex membership \<longleftrightarrow> distinct membership"

subsection \<open>Notions used in the properties\<close>

text \<open>
  The bookkeeping of a call (degrees, neighbour sets, edge set) agrees with its working
  graph, and the working graph is simple.
\<close>

definition consistent :: "state \<Rightarrow> bool" where
  "consistent st \<longleftrightarrow>
     simple_graph (g st) \<and> degree st = graph_degree (g st)
     \<and> neighbors st = map (\<lambda>v. set (graph_neighbors (g st) v)) [0..<vcount (g st)]
     \<and> edges st = es (g st)"

text \<open>The same agreement, with a graph that need not be the one the state holds.\<close>

definition books :: "state \<Rightarrow> graph \<Rightarrow> bool" where
  "books st h \<longleftrightarrow>
     simple_graph h \<and> degree st = graph_degree h
     \<and> neighbors st = map (\<lambda>v. set (graph_neighbors h v)) [0..<vcount h]
     \<and> edges st = es h"

text \<open>The two coefficients, and the score of an edge in a state.\<close>

definition is_scorer :: "(nat \<Rightarrow> nat \<Rightarrow> int list \<Rightarrow> nat set list \<Rightarrow> error + ecc) \<Rightarrow> bool" where
  "is_scorer f \<longleftrightarrow> f = edge_clustering_coefficient_3 \<or> f = edge_clustering_coefficient_4"

definition score_of ::
  "(nat \<Rightarrow> nat \<Rightarrow> int list \<Rightarrow> nat set list \<Rightarrow> error + ecc) \<Rightarrow> state \<Rightarrow> edge \<Rightarrow> error + ecc" where
  "score_of f st e = f (fst e) (snd e) (degree st) (neighbors st)"

text \<open>\<open>m\<close> is the least score over the edges \<open>xs\<close>; no score of \<open>xs\<close> is falsy.\<close>

definition is_min_score :: "(edge \<Rightarrow> error + ecc) \<Rightarrow> edge list \<Rightarrow> ecc \<Rightarrow> bool" where
  "is_min_score score xs m \<longleftrightarrow>
     (\<exists>e\<in>set xs. score e = Inr m) \<and> (\<forall>e\<in>set xs. \<forall>s. score e = Inr s \<longrightarrow> \<not> ecc_less s m)"

definition truthy_scores :: "(edge \<Rightarrow> error + ecc) \<Rightarrow> edge list \<Rightarrow> bool" where
  "truthy_scores score xs \<longleftrightarrow> (\<forall>e\<in>set xs. \<exists>s. score e = Inr s \<and> \<not> falsy (Some s))"

text \<open>
  The components of the working graph whose groups of original ids satisfy the predicate
  of the measure.
\<close>

definition confirmed :: "graph \<Rightarrow> graph \<Rightarrow> string \<Rightarrow> nat list list" where
  "confirmed orig new community_measure =
     filter (\<lambda>c. is_community community_measure orig (map (\<lambda>v. vs_id new ! v) c) = Inr True)
       (graph_components new)"

text \<open>A single edge, and the two triangles after the bridge is deleted (ids set).\<close>

definition one_edge :: graph where
  "one_edge = \<lparr>vcount = 2, es = [(0, 1)], vs_id = [0, 1]\<rparr>"

definition split_triangles :: graph where
  "split_triangles =
     \<lparr>vcount = 6, es = [(0,1),(0,2),(1,2),(3,4),(3,5),(4,5)], vs_id = [0,1,2,3,4,5]\<rparr>"

text \<open>
  Two 4-cliques \<open>{0,1,2,3}\<close> and \<open>{4,5,6,7}\<close> joined through vertex 8, and a
  vertex 9 tied to both cliques, with the pendant vertex 10. The first pass of the
  triangle-based loop deletes 0--9 and 4--9, the second 1--8 and 5--8; the working
  states after the two passes follow.
\<close>

definition two_cliques :: graph where
  "two_cliques =
     \<lparr>vcount = 11,
      es = [(0,1),(0,2),(0,3),(1,2),(1,3),(2,3),(4,5),(4,6),(4,7),(5,6),(5,7),(6,7),
            (1,8),(5,8),(0,9),(4,9),(9,10)],
      vs_id = []\<rparr>"

definition two_cliques_pass1 :: state where
  "two_cliques_pass1 =
     \<lparr>g = \<lparr>vcount = 11,
            es = [(0,1),(0,2),(0,3),(1,2),(1,3),(2,3),(4,5),(4,6),(4,7),(5,6),(5,7),(6,7),
                  (1,8),(5,8),(9,10)],
            vs_id = [0,1,2,3,4,5,6,7,8,9,10]\<rparr>,
      degree = [3,4,3,3,3,4,3,3,2,1,1],
      neighbors = [{1,2,3},{0,2,3,8},{0,1,3},{0,1,2},{5,6,7},{4,6,7,8},{4,5,7},{4,5,6},
                   {1,5},{10},{9}],
      edges = [(0,1),(0,2),(0,3),(1,2),(1,3),(2,3),(4,5),(4,6),(4,7),(5,6),(5,7),(6,7),
               (1,8),(5,8),(9,10)],
      n_components = 1\<rparr>"

definition two_cliques_pass2 :: state where
  "two_cliques_pass2 =
     \<lparr>g = \<lparr>vcount = 11,
            es = [(0,1),(0,2),(0,3),(1,2),(1,3),(2,3),(4,5),(4,6),(4,7),(5,6),(5,7),(6,7),
                  (9,10)],
            vs_id = [0,1,2,3,4,5,6,7,8,9,10]\<rparr>,
      degree = [3,3,3,3,3,3,3,3,0,1,1],
      neighbors = [{1,2,3},{0,2,3},{0,1,3},{0,1,2},{5,6,7},{4,6,7},{4,5,7},{4,5,6},
                   {},{10},{9}],
      edges = [(0,1),(0,2),(0,3),(1,2),(1,3),(2,3),(4,5),(4,6),(4,7),(5,6),(5,7),(6,7),
               (9,10)],
      n_components = 2\<rparr>"

text \<open>
  A working graph of a call on the original graph \<open>G\<close>: it is simple, and its \<open>'id'\<close>
  attribute names one original vertex per working vertex, each once.
\<close>

definition working :: "graph \<Rightarrow> graph \<Rightarrow> bool" where
  "working G gr \<longleftrightarrow>
     simple_graph gr \<and> length (vs_id gr) = vcount gr \<and> distinct (vs_id gr)
     \<and> (\<forall>i\<in>set (vs_id gr). i < vcount G)"

text \<open>
  Groups that are non-empty, pairwise disjoint and drawn from \<open>A\<close>; and two lists of
  groups that hold the same groups and start with the same group.
\<close>

definition good_in :: "nat set \<Rightarrow> nat list list \<Rightarrow> bool" where
  "good_in A res \<longleftrightarrow> set (concat res) \<subseteq> A \<and> distinct (concat res) \<and> [] \<notin> set res"

definition same_groups :: "nat list list \<Rightarrow> nat list list \<Rightarrow> bool" where
  "same_groups r1 r2 \<longleftrightarrow> mset r1 = mset r2 \<and> (r1 \<noteq> [] \<longrightarrow> hd r1 = hd r2)"

text \<open>The partition of the vertices that a membership list stands for.\<close>

definition partition_of :: "nat list \<Rightarrow> nat set set" where
  "partition_of membership =
     (\<lambda>k. set (filter (\<lambda>v. membership ! v = k) [0..<length membership])) ` set membership"

text \<open>
  The same partition, read off the groups returned by the splitter: the first group takes
  every vertex that no group lists.
\<close>

definition classes :: "nat \<Rightarrow> nat list list \<Rightarrow> nat set set" where
  "classes n res =
     (if res = [] then (if n = 0 then {} else {{..<n}})
      else insert (set (hd res) \<union> ({..<n} - set (concat res))) (set ` set (tl res)))"

text \<open>
  An iteration that visits the sets in another order, and the two triangles with two more
  vertices of degree zero.
\<close>

definition io_rev :: iteration where
  "io_rev = \<lparr>edge_rank = (\<lambda>_ e. 10 - snd e), vertex_rank = (\<lambda>_ v. 10 - v)\<rparr>"

definition triangles_and_two :: graph where
  "triangles_and_two =
     \<lparr>vcount = 8, es = [(0,1),(0,2),(1,2),(2,3),(3,4),(3,5),(4,5)], vs_id = []\<rparr>"

subsection \<open>The splitter with the scorer held fixed\<close>

text \<open>
  The specification (sections 4.2 and 4.5) has the scorer selected once per top-level
  invocation and held fixed through all recursion. \<open>radicchi_internal_fixed\<close> follows
  these words: it is \<open>radicchi_internal\<close> with the recursive calls passing their own
  \<open>clustering\<close> on. It is used only to compare the code with.
\<close>

function radicchi_internal_fixed ::
    "iteration \<Rightarrow> graph \<Rightarrow> graph \<Rightarrow> nat \<Rightarrow> string \<Rightarrow> nat \<Rightarrow> error + nat list list"
  and radicchi_while_fixed ::
    "iteration \<Rightarrow> graph \<Rightarrow> nat \<Rightarrow> string
       \<Rightarrow> nat \<Rightarrow> state \<Rightarrow> error + nat list list"
where
  "radicchi_internal_fixed io G gr level measure' clustering =
     radicchi_while_fixed io G level measure' clustering (init_state gr)"
| "radicchi_while_fixed io G level measure' clustering st =
     (if length (edges st) = 0 then Inr []
      else
        ebind (remove_weakest io
                 (if clustering = 3 then edge_clustering_coefficient_3
                  else edge_clustering_coefficient_4) st) (\<lambda>st'.
        let n_components_new = length (graph_components (g st')) in
        if n_components_new > n_components st' then
          ebind (prune_components io G (g st') measure') (\<lambda>result.
          let st'' = st'\<lparr>n_components := n_components_new\<rparr> in
          if pruned result then
            (case (orig_communities result, new_communities result, remaining result) of
               (Some orig_comms, Some new_comms, Some remaining_nodes) \<Rightarrow>
                 ebind (map_err (\<lambda>ic.
                          ebind (graph_subgraph (g st'') (snd ic)) (\<lambda>s.
                          ebind (radicchi_internal_fixed io G s (level + 1) measure' clustering)
                            (\<lambda>subcommunities.
                          if length subcommunities = 0
                          then ebind (get orig_comms (fst ic)) (\<lambda>c. Inr [c])
                          else Inr subcommunities)))
                        (enumerate 0 new_comms)) (\<lambda>parts.
                 ebind (map_err (get (vs_id (g st''))) remaining_nodes) (\<lambda>orig_remaining.
                 ebind (graph_subgraph (g st'') remaining_nodes) (\<lambda>r.
                 ebind (radicchi_internal_fixed io G r (level + 1) measure' clustering) (\<lambda>subcommunities.
                 let clustered = concat subcommunities;
                     isolated_remaining = filter (\<lambda>i. i \<notin> set clustered) orig_remaining
                 in Inr (concat parts @ map (\<lambda>i. [i]) isolated_remaining)))))
             | _ \<Rightarrow> Inl TypeError)
          else radicchi_while_fixed io G level measure' clustering st'')
        else radicchi_while_fixed io G level measure' clustering st'))"
  by pat_completeness auto

termination
  apply (relation "measure (\<lambda>x. case x of
            Inl (io, G, gr, level, m, c) \<Rightarrow> 2 * length (es gr) + 1
          | Inr (io, G, level, m, f, st) \<Rightarrow> 2 * length (es (g st)))")
       apply (simp_all add: init_state_def)
     apply (fastforce dest: remove_weakest_less graph_subgraph_edges_le)+
  done


text \<open>The entry point over it.\<close>

definition radicchi_fixed :: "iteration \<Rightarrow> graph \<Rightarrow> string \<Rightarrow> error + nat list" where
  "radicchi_fixed io G measure' =
     (let gr = (graph_copy G)\<lparr>vs_id := [0..<vcount (graph_copy G)]\<rparr> in
      ebind (if measure' = ''weak'' then radicchi_internal_fixed io G gr 0 measure' 4
             else if measure' = ''strong'' then radicchi_internal_fixed io G gr 0 measure' 3
             else Inl InvalidMeasure) (\<lambda>result.
      label_groups (enumerate 0 result) (replicate (vcount G) 0)))"

text \<open>
  A hub (3) with three pendant paths and a square 0--3--7--6 through it.
\<close>

definition kite :: graph where
  "kite = \<lparr>vcount = 8, es = [(0,3),(0,6),(1,2),(2,3),(3,4),(3,5),(3,7),(6,7)], vs_id = []\<rparr>"

subsection \<open>The module on a store of graph objects\<close>

text \<open>
  In the module the graphs are objects: \<open>G\<close> and \<open>g\<close> are references, \<open>g.delete_edges\<close>
  and the assignment to \<open>g.vs['id']\<close> change an object in place, \<open>copy\<close> and
  \<open>subgraph\<close> make new objects. This second model of the same code keeps the graph
  objects in a store and passes references (addresses) where the module does. Every value
  is computed by the functions above, from the objects read in the store. An exception
  leaves the store as it is at that point. The recursion is bounded by a fuel parameter;
  running out of fuel stops the run where it is.
\<close>

type_synonym addr = nat

record store =
  objs :: "addr \<Rightarrow> graph"
  fresh :: addr

text \<open>A new object, and the change of an object in place.\<close>

definition alloc :: "graph \<Rightarrow> store \<Rightarrow> addr \<times> store" where
  "alloc gr h = (fresh h, h\<lparr>objs := (objs h)(fresh h := gr), fresh := Suc (fresh h)\<rparr>)"

definition put :: "addr \<Rightarrow> graph \<Rightarrow> store \<Rightarrow> store" where
  "put a gr h = h\<lparr>objs := (objs h)(a := gr)\<rparr>"

text \<open>Results with the store; the first exception ends a sequence.\<close>

datatype herror = Raised error | OutOfFuel

definition lift :: "error + 'a \<Rightarrow> store \<Rightarrow> (herror + 'a) \<times> store" where
  "lift r h = (case r of Inl e \<Rightarrow> (Inl (Raised e), h) | Inr x \<Rightarrow> (Inr x, h))"

definition hthen ::
  "(herror + 'a) \<times> store \<Rightarrow> ('a \<Rightarrow> store \<Rightarrow> (herror + 'b) \<times> store) \<Rightarrow> (herror + 'b) \<times> store" where
  "hthen r f = (case r of (Inl e, h) \<Rightarrow> (Inl e, h) | (Inr x, h) \<Rightarrow> f x h)"

fun map_h ::
  "('a \<Rightarrow> store \<Rightarrow> (herror + 'b) \<times> store) \<Rightarrow> 'a list \<Rightarrow> store \<Rightarrow> (herror + 'b list) \<times> store" where
  "map_h f [] h = (Inr [], h)"
| "map_h f (x # xs) h =
     hthen (f x h) (\<lambda>y h1. hthen (map_h f xs h1) (\<lambda>ys h2. (Inr (y # ys), h2)))"

text \<open>The working state of a call holds a reference to its working graph.\<close>

record hstate =
  gref :: addr
  hdegree :: "int list"
  hneighbors :: "nat set list"
  hedges :: "edge list"
  hn_components :: nat

definition view :: "store \<Rightarrow> hstate \<Rightarrow> state" where
  "view h hs = \<lparr>g = objs h (gref hs), degree = hdegree hs, neighbors = hneighbors hs,
               edges = hedges hs, n_components = hn_components hs\<rparr>"

definition unview :: "addr \<Rightarrow> state \<Rightarrow> hstate" where
  "unview a st = \<lparr>gref = a, hdegree = degree st, hneighbors = neighbors st,
                 hedges = edges st, hn_components = n_components st\<rparr>"

text \<open>One pass: score and select, \<open>g.delete_edges\<close> in place, bookkeeping.\<close>

definition remove_weakest_h ::
  "iteration \<Rightarrow> (nat \<Rightarrow> nat \<Rightarrow> int list \<Rightarrow> nat set list \<Rightarrow> error + ecc) \<Rightarrow> hstate \<Rightarrow> store
     \<Rightarrow> (herror + hstate) \<times> store" where
  "remove_weakest_h io edge_clustering_coefficient hs h =
     hthen (lift (select_min
                    (\<lambda>e. edge_clustering_coefficient (fst e) (snd e) (hdegree hs) (hneighbors hs))
                    (iterate_edges io (hedges hs)) ([], None)) h) (\<lambda>sel h.
     let min_edges = fst sel in
     hthen (lift (graph_delete_edges (objs h (gref hs)) min_edges) h) (\<lambda>g' h.
     let h' = put (gref hs) g' h in
     hthen (lift (discard_edges min_edges (view h' hs)) h') (\<lambda>st' h.
     (Inr (unview (gref hs) st'), h))))"

lemma hthen_cong [fundef_cong]:
  "r = r' \<Longrightarrow> (\<And>x h. r' = (Inr x, h) \<Longrightarrow> f x h = f' x h) \<Longrightarrow> hthen r f = hthen r' f'"
  by (auto simp: hthen_def split: prod.splits sum.splits)

lemma map_h_cong [fundef_cong]:
  "xs = ys \<Longrightarrow> h = h' \<Longrightarrow> (\<And>x k. x \<in> set ys \<Longrightarrow> f x k = f' x k)
   \<Longrightarrow> map_h f xs h = map_h f' ys h'"
proof (induction ys arbitrary: xs h h')
  case Nil
  then show ?case by simp
next
  case (Cons y ys)
  then show ?case by (auto intro!: hthen_cong)
qed

fun radicchi_internal_h ::
    "nat \<Rightarrow> iteration \<Rightarrow> addr \<Rightarrow> addr \<Rightarrow> nat \<Rightarrow> string \<Rightarrow> nat \<Rightarrow> store
       \<Rightarrow> (herror + nat list list) \<times> store"
  and radicchi_while_h ::
    "nat \<Rightarrow> iteration \<Rightarrow> addr \<Rightarrow> nat \<Rightarrow> string
       \<Rightarrow> (nat \<Rightarrow> nat \<Rightarrow> int list \<Rightarrow> nat set list \<Rightarrow> error + ecc) \<Rightarrow> hstate \<Rightarrow> store
       \<Rightarrow> (herror + nat list list) \<times> store"
where
  "radicchi_internal_h 0 io G gr level measure' clustering h = (Inl OutOfFuel, h)"
| "radicchi_internal_h (Suc fuel) io G gr level measure' clustering h =
     radicchi_while_h fuel io G level measure'
       (if clustering = 3 then edge_clustering_coefficient_3 else edge_clustering_coefficient_4)
       (unview gr (init_state (objs h gr))) h"
| "radicchi_while_h 0 io G level measure' edge_clustering_coefficient hs h = (Inl OutOfFuel, h)"
| "radicchi_while_h (Suc fuel) io G level measure' edge_clustering_coefficient hs h =
     (if length (hedges hs) = 0 then (Inr [], h)
      else
        hthen (remove_weakest_h io edge_clustering_coefficient hs h) (\<lambda>hs' h.
        let n_components_new = length (graph_components (objs h (gref hs'))) in
        if n_components_new > hn_components hs' then
          hthen (lift (prune_components io (objs h G) (objs h (gref hs')) measure') h) (\<lambda>result h.
          let hs'' = hs'\<lparr>hn_components := n_components_new\<rparr> in
          if pruned result then
            (case (orig_communities result, new_communities result, remaining result) of
               (Some orig_comms, Some new_comms, Some remaining_nodes) \<Rightarrow>
                 hthen (map_h (\<lambda>ic h.
                          hthen (lift (graph_subgraph (objs h (gref hs'')) (snd ic)) h) (\<lambda>s h.
                          hthen (radicchi_internal_h fuel io G (fst (alloc s h)) (level + 1)
                                   measure' 3 (snd (alloc s h)))
                            (\<lambda>subcommunities h.
                          if length subcommunities = 0
                          then hthen (lift (get orig_comms (fst ic)) h) (\<lambda>c h. (Inr [c], h))
                          else (Inr subcommunities, h))))
                        (enumerate 0 new_comms) h) (\<lambda>parts h.
                 hthen (lift (map_err (get (vs_id (objs h (gref hs'')))) remaining_nodes) h)
                   (\<lambda>orig_remaining h.
                 hthen (lift (graph_subgraph (objs h (gref hs'')) remaining_nodes) h) (\<lambda>r h.
                 hthen (radicchi_internal_h fuel io G (fst (alloc r h)) (level + 1)
                          measure' 3 (snd (alloc r h))) (\<lambda>subcommunities h.
                 let clustered = concat subcommunities;
                     isolated_remaining = filter (\<lambda>i. i \<notin> set clustered) orig_remaining
                 in (Inr (concat parts @ map (\<lambda>i. [i]) isolated_remaining), h)))))
             | _ \<Rightarrow> (Inl (Raised TypeError), h))
          else radicchi_while_h fuel io G level measure' edge_clustering_coefficient hs'' h)
        else radicchi_while_h fuel io G level measure' edge_clustering_coefficient hs' h))"

text \<open>The entry point: \<open>g = G.copy()\<close> is a new object, tagged in place.\<close>

definition radicchi_h ::
  "nat \<Rightarrow> iteration \<Rightarrow> addr \<Rightarrow> string \<Rightarrow> store \<Rightarrow> (herror + nat list) \<times> store" where
  "radicchi_h fuel io G measure' h =
     (let gr = fst (alloc (graph_copy (objs h G)) h);
          h1 = snd (alloc (graph_copy (objs h G)) h);
          h2 = put gr ((objs h1 gr)\<lparr>vs_id := [0..<vcount (objs h1 gr)]\<rparr>) h1
      in
      hthen (if measure' = ''weak'' then radicchi_internal_h fuel io G gr 0 measure' 4 h2
             else if measure' = ''strong'' then radicchi_internal_h fuel io G gr 0 measure' 3 h2
             else (Inl (Raised InvalidMeasure), h2)) (\<lambda>result h.
      lift (label_groups (enumerate 0 result) (replicate (vcount (objs h G)) 0)) h))"

text \<open>
  From \<open>h\<close> to \<open>h'\<close> no object is lost and the objects of \<open>h\<close> outside \<open>A\<close> are
  unchanged.
\<close>

definition frame :: "addr set \<Rightarrow> store \<Rightarrow> store \<Rightarrow> bool" where
  "frame A h h' \<longleftrightarrow> fresh h \<le> fresh h' \<and> (\<forall>a<fresh h. a \<notin> A \<longrightarrow> objs h' a = objs h a)"

text \<open>A store whose only object, at address 0, is the two triangles.\<close>

definition store0 :: store where
  "store0 = \<lparr>objs = (\<lambda>_. \<lparr>vcount = 0, es = [], vs_id = []\<rparr>)(0 := two_triangles), fresh = 1\<rparr>"

section \<open>Properties\<close>

subsection \<open>The community predicates on the empty subset\<close>

text \<open>
  C3, as stated: on an empty vertex subset both predicates raise InvalidCommunity. The
  module has no such error. On the two triangles the strong predicate returns true on
  the empty subset and the weak predicate returns false.
\<close>

theorem empty_subset_counterexample:
  "is_strong_community two_triangles [] = Inr True
   \<and> is_weak_community two_triangles [] = Inr False"
  by (simp add: is_strong_community_def is_weak_community_def graph_subgraph_def
      graph_degree_of_def graph_degree_def ebind_def two_triangles_def)

text \<open>
  C3, amended: for every graph, neither predicate raises on the empty subset; the strong
  predicate returns true (its loop over the members runs zero times) and the weak
  predicate returns false (both sums are zero).
\<close>

theorem empty_subset_no_error:
  "is_strong_community G [] = Inr True \<and> is_weak_community G [] = Inr False"
  by (simp add: is_strong_community_def is_weak_community_def graph_subgraph_def
      graph_degree_of_def graph_degree_def ebind_def)

theorem empty_subset_no_error_witness:
  "is_strong_community two_isolated [] = Inr True
   \<and> is_weak_community two_isolated [] = Inr False"
  using empty_subset_no_error [of two_isolated] by simp

subsection \<open>Unsupported measures\<close>

text \<open>
  C6: for every mode string other than 'strong' and 'weak' the top-level call raises
  InvalidMeasure, whatever the graph (also one on which the splitter itself would fail).
  Before the test of the mode the call has only made the copy of the graph and tagged its
  vertices; on the store this is all that the call leaves behind: one new object, the
  tagged copy with every edge of the graph, and every earlier object as it was. No edge
  is deleted and no subgraph object is made. The splitter is never entered: the outcome
  is the same for every amount of fuel, also with none, where entering it would end the
  run with \<open>OutOfFuel\<close>. The labelling comes after the raise and is not reached.
\<close>

theorem invalid_measure_rejected:
  assumes "measure' \<noteq> ''weak''" and "measure' \<noteq> ''strong''" and "b < fresh h"
  shows "radicchi io G measure' = Inl InvalidMeasure
       \<and> radicchi_h fuel io a measure' h =
           (Inl (Raised InvalidMeasure),
            h\<lparr>objs := (objs h)(fresh h := (objs h a)\<lparr>vs_id := [0..<vcount (objs h a)]\<rparr>),
              fresh := Suc (fresh h)\<rparr>)
       \<and> radicchi_h 0 io a measure' h = radicchi_h fuel io a measure' h
       \<and> objs (snd (radicchi_h fuel io a measure' h)) b = objs h b
       \<and> es (objs (snd (radicchi_h fuel io a measure' h)) (fresh h)) = es (objs h a)
       \<and> fresh (snd (radicchi_h fuel io a measure' h)) = Suc (fresh h)"
proof -
  have 1: "radicchi io G measure' = Inl InvalidMeasure"
    using assms(1,2) by (simp add: radicchi_def ebind_def Let_def)
  have 2: "radicchi_h n io a measure' h =
           (Inl (Raised InvalidMeasure),
            h\<lparr>objs := (objs h)(fresh h := (objs h a)\<lparr>vs_id := [0..<vcount (objs h a)]\<rparr>),
              fresh := Suc (fresh h)\<rparr>)" for n
    using assms(1,2)
    by (simp add: radicchi_h_def hthen_def Let_def alloc_def put_def graph_copy_def)
  from assms(3) have 3: "b \<noteq> fresh h" by simp
  from 1 2[of fuel] 2[of 0] 3 show ?thesis by simp
qed

theorem invalid_measure_rejected_witness:
  "''medium'' \<noteq> ''weak'' \<and> ''medium'' \<noteq> ''strong'' \<and> 0 < fresh store0
   \<and> radicchi io0 two_triangles ''medium'' = Inl InvalidMeasure
   \<and> fst (radicchi_h 0 io0 0 ''medium'' store0) = Inl (Raised InvalidMeasure)
   \<and> fst (radicchi_h 20 io0 0 ''medium'' store0) = Inl (Raised InvalidMeasure)
   \<and> objs (snd (radicchi_h 20 io0 0 ''medium'' store0)) 0 = two_triangles
   \<and> objs (snd (radicchi_h 20 io0 0 ''medium'' store0)) 1
       = two_triangles\<lparr>vs_id := [0,1,2,3,4,5]\<rparr>
   \<and> fresh (snd (radicchi_h 20 io0 0 ''medium'' store0)) = 2
   \<and> fst (radicchi_h 0 io0 0 ''strong'' store0) = Inl OutOfFuel"
proof -
  have m: "''medium'' \<noteq> ''weak''" "''medium'' \<noteq> ''strong''" by simp_all
  have f: "0 < fresh store0" by (simp add: store0_def)
  have u: "[0..<6] = [0,1,2,3,4,5::nat]" by (simp add: upt_rec)
  have s: "fst (radicchi_h 0 io0 0 ''strong'' store0) = Inl OutOfFuel"
    by (simp add: radicchi_h_def Let_def hthen_def)
  from invalid_measure_rejected[OF m f, of io0 two_triangles 20 0]
       invalid_measure_rejected[OF m f, of io0 two_triangles 0 0] m f s
  show ?thesis
    by (simp add: store0_def two_triangles_def u)
qed

subsection \<open>Graphs without edges\<close>

text \<open>
  C2, as stated: a graph with vertices and no edges gets one singleton community per
  vertex. On two isolated vertices the call returns the membership [0, 0]: both vertices
  in community 0.
\<close>

theorem no_edges_counterexample:
  "radicchi io0 two_isolated ''weak'' = Inr [0, 0]
   \<and> \<not> one_singleton_per_vertex [0, 0]"
  by (simp add: radicchi_def ebind_def Let_def init_state_def graph_copy_def
      two_isolated_def one_singleton_per_vertex_def numeral_2_eq_2)

text \<open>
  C2, amended: for every graph with zero edges and either measure, the top-level call
  returns the membership that gives every vertex the label 0, that is, one community
  holding all the vertices.
\<close>

theorem no_edges_one_community:
  "es G = [] \<Longrightarrow> measure' = ''weak'' \<or> measure' = ''strong''
   \<Longrightarrow> radicchi io G measure' = Inr (replicate (vcount G) 0)"
  by (auto simp: radicchi_def ebind_def Let_def init_state_def graph_copy_def)

theorem no_edges_one_community_witness:
  "es two_isolated = [] \<and> radicchi io0 two_isolated ''strong'' = Inr (replicate (vcount two_isolated) 0)"
  using no_edges_one_community [of two_isolated "''strong''" io0]
  by (simp add: two_isolated_def)

subsection \<open>The state of the loop\<close>

lemma consistent_init_state: "simple_graph gr \<Longrightarrow> consistent (init_state gr)"
  by (simp add: consistent_def init_state_def simple_graph_def)

lemma simple_graph_edge:
  "simple_graph gr \<Longrightarrow> (u, v) \<in> set (es gr) \<Longrightarrow> u < v \<and> v < vcount gr"
  by (auto simp: simple_graph_def list_all_iff)

lemma degree_at_fst: "(u, v) \<in> set (es gr) \<Longrightarrow> 1 \<le> degree_at gr u"
proof -
  assume "(u, v) \<in> set (es gr)"
  then have "filter (\<lambda>e. fst e = u) (es gr) \<noteq> []"
    by (force simp: filter_empty_conv)
  then have "0 < length (filter (\<lambda>e. fst e = u) (es gr))" by simp
  then show ?thesis unfolding degree_at_def by linarith
qed

lemma degree_at_snd: "(u, v) \<in> set (es gr) \<Longrightarrow> 1 \<le> degree_at gr v"
proof -
  assume "(u, v) \<in> set (es gr)"
  then have "filter (\<lambda>e. snd e = v) (es gr) \<noteq> []"
    by (force simp: filter_empty_conv)
  then have "0 < length (filter (\<lambda>e. snd e = v) (es gr))" by simp
  then show ?thesis unfolding degree_at_def by linarith
qed

lemma graph_neighbors_bound:
  "simple_graph gr \<Longrightarrow> w \<in> set (graph_neighbors gr u) \<Longrightarrow> w < vcount gr"
  by (auto simp: graph_neighbors_def dest: simple_graph_edge)

lemma consistent_edge:
  assumes "consistent st" and "(u, v) \<in> set (edges st)"
  shows "u < v" and "v < vcount (g st)" and "length (degree st) = vcount (g st)"
    and "length (neighbors st) = vcount (g st)"
    and "1 \<le> degree st ! u" and "1 \<le> degree st ! v"
  using assms simple_graph_edge[of "g st" u v] degree_at_fst[of u v "g st"]
    degree_at_snd[of u v "g st"]
  by (auto simp: consistent_def graph_degree_def)

lemma positive_quotient:
  fixes n :: nat and m :: int
  assumes "0 < m"
  shows "1 / of_int m \<le> (of_nat n + 1) / (of_int m :: rat)" and "0 < (of_nat n + 1) / (of_int m :: rat)"
  using assms by (simp_all add: divide_right_mono)

subsection \<open>The scores are positive\<close>

lemma coefficient_3_score:
  assumes "consistent st" and "(u, v) \<in> set (edges st)"
  shows "\<exists>s. edge_clustering_coefficient_3 u v (degree st) (neighbors st) = Inr s
            \<and> (let mdeg = min (degree st ! u - 1) (degree st ! v - 1) in
                 if mdeg = 0 then s = Infinity
                 else \<exists>q. s = Finite q \<and> 1 / of_int mdeg \<le> q \<and> 0 < q)
            \<and> \<not> falsy (Some s)"
proof (cases "min (degree st ! u - 1) (degree st ! v - 1) = 0")
  case True
  then show ?thesis
    using consistent_edge[OF assms]
    by (simp add: edge_clustering_coefficient_3_def get_def ebind_def)
next
  case False
  note e = consistent_edge[OF assms]
  have "0 \<le> min (degree st ! u - 1) (degree st ! v - 1)" using e by simp
  with False have pos: "0 < min (degree st ! u - 1) (degree st ! v - 1)" by linarith
  show ?thesis
    using False e positive_quotient[OF pos]
    by (simp add: edge_clustering_coefficient_3_def get_def ebind_def Let_def)
qed

lemma coefficient_4_score:
  assumes "consistent st" and "(u, v) \<in> set (edges st)"
  shows "\<exists>s. edge_clustering_coefficient_4 u v (degree st) (neighbors st) = Inr s
            \<and> (let mdeg = (degree st ! u - 1) * (degree st ! v - 1) in
                 if mdeg = 0 then s = Infinity
                 else \<exists>q. s = Finite q \<and> 1 / of_int mdeg \<le> q \<and> 0 < q)
            \<and> \<not> falsy (Some s)"
proof (cases "(degree st ! u - 1) * (degree st ! v - 1) = 0")
  case True
  then show ?thesis
    using consistent_edge[OF assms]
    by (simp add: edge_clustering_coefficient_4_def get_def ebind_def)
next
  case False
  note e = consistent_edge[OF assms]
  have uv: "u < vcount (g st)" using e by simp
  have m4: "0 \<le> (degree st ! u - 1) * (degree st ! v - 1)" using e by simp
  have nb: "\<forall>w\<in>neighbors st ! u - {v}. w < length (neighbors st)"
    using assms(1) uv e(4) graph_neighbors_bound[of "g st" _ u]
    by (auto simp: consistent_def)
  define m where "m = (degree st ! u - 1) * (degree st ! v - 1)"
  define n where "n = (\<Sum>w\<in>neighbors st ! u - {v}.
                         card ((neighbors st ! w - {u}) \<inter> (neighbors st ! v - {u})))"
  from False m4 have pos: "0 < m" unfolding m_def by linarith
  have "edge_clustering_coefficient_4 u v (degree st) (neighbors st)
          = Inr (Finite ((of_nat n + 1) / of_int m))"
    using False e uv nb unfolding m_def n_def
    by (simp add: edge_clustering_coefficient_4_def get_def ebind_def Let_def
        del: of_int_mult of_nat_sum)
  moreover have "1 / of_int m \<le> (of_nat n + 1) / (of_int m :: rat)"
    and "0 < (of_nat n + 1) / (of_int m :: rat)"
    using positive_quotient[OF pos] by blast+
  moreover have "m \<noteq> 0" using pos by simp
  ultimately show ?thesis
    unfolding m_def[symmetric] Let_def by (auto simp del: of_int_mult)
qed

text \<open>
  C10: for every edge of a state of the loop, both coefficients return a score (no
  exception); the score is +infinity when the denominator is zero, and otherwise a
  finite value that is at least 1 divided by the denominator and strictly positive. In
  both cases the score is not falsy, so \<open>not min_ecc\<close> holds of the unset \<open>None\<close> only.
\<close>

theorem scores_positive:
  assumes "consistent st" and "(u, v) \<in> set (edges st)"
  shows "(\<exists>s. edge_clustering_coefficient_3 u v (degree st) (neighbors st) = Inr s
            \<and> (let mdeg = min (degree st ! u - 1) (degree st ! v - 1) in
                 if mdeg = 0 then s = Infinity
                 else \<exists>q. s = Finite q \<and> 1 / of_int mdeg \<le> q \<and> 0 < q)
            \<and> \<not> falsy (Some s))
       \<and> (\<exists>s. edge_clustering_coefficient_4 u v (degree st) (neighbors st) = Inr s
            \<and> (let mdeg = (degree st ! u - 1) * (degree st ! v - 1) in
                 if mdeg = 0 then s = Infinity
                 else \<exists>q. s = Finite q \<and> 1 / of_int mdeg \<le> q \<and> 0 < q)
            \<and> \<not> falsy (Some s))"
  using coefficient_3_score[OF assms] coefficient_4_score[OF assms] by blast

theorem scores_positive_witness:
  "consistent (init_state two_triangles) \<and> (2, 3) \<in> set (edges (init_state two_triangles))
   \<and> edge_clustering_coefficient_3 2 3 (degree (init_state two_triangles))
        (neighbors (init_state two_triangles)) = Inr (Finite (1 / 2))
   \<and> edge_clustering_coefficient_4 2 3 (degree (init_state two_triangles))
        (neighbors (init_state two_triangles)) = Inr (Finite (1 / 4))"
proof -
  have c: "consistent (init_state two_triangles)"
    by (rule consistent_init_state) (simp add: simple_graph_def two_triangles_def)
  have m: "(2, 3) \<in> set (edges (init_state two_triangles))"
    by (simp add: init_state_def two_triangles_def)
  have v3: "edge_clustering_coefficient_3 2 3 (degree (init_state two_triangles))
        (neighbors (init_state two_triangles)) = Inr (Finite (1 / 2))"
    by code_simp
  have v4: "edge_clustering_coefficient_4 2 3 (degree (init_state two_triangles))
        (neighbors (init_state two_triangles)) = Inr (Finite (1 / 4))"
    by code_simp
  from scores_positive[OF c m] c m v3 v4 show ?thesis by simp
qed

subsection \<open>One pass of the loop\<close>

text \<open>
  The scoring loop returns exactly the edges tied at the least score, whatever the order
  of the visit, provided no score is falsy; the bookkeeping loop keeps the state in
  step with the working graph.
\<close>

lemma ecc_less_irrefl [simp]: "\<not> ecc_less a a"
  by (cases a) auto

lemma ecc_less_trans: "ecc_less a b \<Longrightarrow> ecc_less b c \<Longrightarrow> ecc_less a c"
  by (cases a; cases b; cases c) auto

lemma ecc_less_asym: "ecc_less a b \<Longrightarrow> \<not> ecc_less b a"
  by (cases a; cases b) auto

lemma ecc_less_total: "a \<noteq> b \<Longrightarrow> ecc_less a b \<or> ecc_less b a"
  by (cases a; cases b) auto

lemma is_min_score_unique:
  "is_min_score score xs m \<Longrightarrow> is_min_score score xs m' \<Longrightarrow> m = m'"
  unfolding is_min_score_def by (metis ecc_less_total)

lemma is_min_score_set:
  "set xs = set ys \<Longrightarrow> is_min_score score xs m = is_min_score score ys m"
  by (simp add: is_min_score_def)

text \<open>The loop from a set minimum: the result lists the edges tied at the least score seen.\<close>

lemma select_min_from:
  assumes "truthy_scores score xs" and "\<not> falsy (Some m)"
  shows "\<exists>m'. select_min score xs (me, Some m) =
           Inr ((if m' = m then me else []) @ filter (\<lambda>e. score e = Inr m') xs, Some m')
         \<and> \<not> falsy (Some m')
         \<and> (m' = m \<or> (\<exists>e\<in>set xs. score e = Inr m') \<and> ecc_less m' m)
         \<and> (\<forall>e\<in>set xs. \<forall>s. score e = Inr s \<longrightarrow> \<not> ecc_less s m')"
  using assms
proof (induction xs arbitrary: me m)
  case Nil
  then show ?case by simp
next
  case (Cons x xs)
  from Cons.prems(1) obtain s where s: "score x = Inr s" "\<not> falsy (Some s)"
    and rest: "truthy_scores score xs"
    by (auto simp: truthy_scores_def)
  consider (less) "ecc_less s m" | (eq) "s = m" | (greater) "ecc_less m s"
    using ecc_less_total by blast
  then show ?case
  proof cases
    case less
    from Cons.IH[OF rest s(2), of "[x]"] obtain m' where
      r: "select_min score xs ([x], Some s) =
            Inr ((if m' = s then [x] else []) @ filter (\<lambda>e. score e = Inr m') xs, Some m')"
      and nf: "\<not> falsy (Some m')"
      and mem: "m' = s \<or> (\<exists>e\<in>set xs. score e = Inr m') \<and> ecc_less m' s"
      and lb: "\<forall>e\<in>set xs. \<forall>s. score e = Inr s \<longrightarrow> \<not> ecc_less s m'"
      by blast
    from mem less have lt: "ecc_less m' m" by (auto intro: ecc_less_trans)
    then have ne: "m' \<noteq> m" by auto
    have "select_min score (x # xs) (me, Some m) = select_min score xs ([x], Some s)"
      using s less Cons.prems(2) by simp
    with r have "select_min score (x # xs) (me, Some m) =
        Inr ((if m' = m then me else []) @ filter (\<lambda>e. score e = Inr m') (x # xs), Some m')"
      using ne s by auto
    moreover have "(\<exists>e\<in>set (x # xs). score e = Inr m') \<and> ecc_less m' m"
      using mem s lt by auto
    moreover have "\<forall>e\<in>set (x # xs). \<forall>t. score e = Inr t \<longrightarrow> \<not> ecc_less t m'"
      using lb s mem by (auto dest: ecc_less_asym)
    ultimately show ?thesis using nf by blast
  next
    case eq
    from Cons.IH[OF rest Cons.prems(2), of "me @ [x]"] obtain m' where
      r: "select_min score xs (me @ [x], Some m) =
            Inr ((if m' = m then me @ [x] else []) @ filter (\<lambda>e. score e = Inr m') xs, Some m')"
      and nf: "\<not> falsy (Some m')"
      and mem: "m' = m \<or> (\<exists>e\<in>set xs. score e = Inr m') \<and> ecc_less m' m"
      and lb: "\<forall>e\<in>set xs. \<forall>s. score e = Inr s \<longrightarrow> \<not> ecc_less s m'"
      by blast
    have "select_min score (x # xs) (me, Some m) = select_min score xs (me @ [x], Some m)"
      using s eq Cons.prems(2) by simp
    with r have "select_min score (x # xs) (me, Some m) =
        Inr ((if m' = m then me else []) @ filter (\<lambda>e. score e = Inr m') (x # xs), Some m')"
      using s eq by auto
    moreover have "m' = m \<or> (\<exists>e\<in>set (x # xs). score e = Inr m') \<and> ecc_less m' m"
      using mem by auto
    moreover have "\<forall>e\<in>set (x # xs). \<forall>t. score e = Inr t \<longrightarrow> \<not> ecc_less t m'"
      using lb s eq mem by (auto dest: ecc_less_asym)
    ultimately show ?thesis using nf by blast
  next
    case greater
    then have ne: "s \<noteq> m" by auto
    from Cons.IH[OF rest Cons.prems(2), of me] obtain m' where
      r: "select_min score xs (me, Some m) =
            Inr ((if m' = m then me else []) @ filter (\<lambda>e. score e = Inr m') xs, Some m')"
      and nf: "\<not> falsy (Some m')"
      and mem: "m' = m \<or> (\<exists>e\<in>set xs. score e = Inr m') \<and> ecc_less m' m"
      and lb: "\<forall>e\<in>set xs. \<forall>s. score e = Inr s \<longrightarrow> \<not> ecc_less s m'"
      by blast
    have sm': "s \<noteq> m'" and nl: "\<not> ecc_less s m'"
      using mem greater by (auto dest: ecc_less_asym ecc_less_trans)
    have "select_min score (x # xs) (me, Some m) = select_min score xs (me, Some m)"
      using s greater ne Cons.prems(2) by (auto dest: ecc_less_asym)
    with r have "select_min score (x # xs) (me, Some m) =
        Inr ((if m' = m then me else []) @ filter (\<lambda>e. score e = Inr m') (x # xs), Some m')"
      using s sm' by auto
    moreover have "m' = m \<or> (\<exists>e\<in>set (x # xs). score e = Inr m') \<and> ecc_less m' m"
      using mem by auto
    moreover have "\<forall>e\<in>set (x # xs). \<forall>t. score e = Inr t \<longrightarrow> \<not> ecc_less t m'"
      using lb s nl by auto
    ultimately show ?thesis using nf by blast
  qed
qed

lemma select_min_tied:
  assumes "truthy_scores score xs" and "xs \<noteq> []"
  shows "\<exists>m. select_min score xs ([], None) = Inr (filter (\<lambda>e. score e = Inr m) xs, Some m)
             \<and> is_min_score score xs m"
proof -
  from assms(2) obtain x rest where xs: "xs = x # rest" by (cases xs) auto
  from assms(1) xs obtain s where s: "score x = Inr s" "\<not> falsy (Some s)"
    and rest: "truthy_scores score rest"
    by (auto simp: truthy_scores_def)
  from select_min_from[OF rest s(2), of "[x]"] obtain m' where
      r: "select_min score rest ([x], Some s) =
            Inr ((if m' = s then [x] else []) @ filter (\<lambda>e. score e = Inr m') rest, Some m')"
      and mem: "m' = s \<or> (\<exists>e\<in>set rest. score e = Inr m') \<and> ecc_less m' s"
      and lb: "\<forall>e\<in>set rest. \<forall>s. score e = Inr s \<longrightarrow> \<not> ecc_less s m'"
    by blast
  have "select_min score xs ([], None) = select_min score rest ([x], Some s)"
    using xs s by simp
  with r have "select_min score xs ([], None) = Inr (filter (\<lambda>e. score e = Inr m') xs, Some m')"
    using xs s by auto
  moreover have "is_min_score score xs m'"
    unfolding is_min_score_def using xs s mem lb by (auto dest: ecc_less_asym)
  ultimately show ?thesis by blast
qed

lemma consistent_books: "consistent st \<longleftrightarrow> books st (g st)"
  by (simp add: consistent_def books_def)

lemma set_graph_neighbors:
  "set (graph_neighbors h w) = {x. (w, x) \<in> set (es h) \<or> (x, w) \<in> set (es h)}"
  by (force simp: graph_neighbors_def)

lemma length_filter_removeAll:
  assumes "distinct xs" and "e \<in> set xs"
  shows "int (length (filter P (removeAll e xs))) = int (length (filter P xs)) - (if P e then 1 else 0)"
  using assms
proof (induction xs)
  case Nil
  then show ?case by simp
next
  case (Cons x xs)
  show ?case
  proof (cases "x = e")
    case True
    with Cons.prems have "e \<notin> set xs" by simp
    then have "removeAll e xs = xs" by (simp add: removeAll_id)
    with True show ?thesis by simp
  next
    case False
    with Cons show ?thesis by auto
  qed
qed

lemma degree_at_removeAll:
  assumes "simple_graph h" and "(u, v) \<in> set (es h)"
  shows "degree_at (h\<lparr>es := removeAll (u, v) (es h)\<rparr>) w =
           degree_at h w - (if w = u then 1 else 0) - (if w = v then 1 else 0)"
proof -
  have d: "distinct (es h)" using assms(1) by (simp add: simple_graph_def)
  show ?thesis
    unfolding degree_at_def
    using length_filter_removeAll[OF d assms(2), of "\<lambda>e. fst e = w"]
      length_filter_removeAll[OF d assms(2), of "\<lambda>e. snd e = w"]
    by simp
qed

lemma simple_graph_removeAll:
  "simple_graph h \<Longrightarrow> simple_graph (h\<lparr>es := removeAll e (es h)\<rparr>)"
  by (auto simp: simple_graph_def list_all_iff distinct_removeAll)

lemma neighbors_removeAll:
  assumes "simple_graph h" and "(u, v) \<in> set (es h)"
  shows "set (graph_neighbors (h\<lparr>es := removeAll (u, v) (es h)\<rparr>) w) =
           set (graph_neighbors h w) - (if w = u then {v} else {}) - (if w = v then {u} else {})"
proof -
  from assms have uv: "u < v" by (auto dest: simple_graph_edge)
  have nvu: "(v, u) \<notin> set (es h)"
    using assms(1) uv simple_graph_edge[of h v u] by auto
  show ?thesis
    unfolding set_graph_neighbors using uv nvu by auto
qed

lemma discard_step:
  assumes "books st h" and "(u, v) \<in> set (es h)"
  shows "books (st\<lparr>edges := removeAll (u, v) (edges st),
                  neighbors := ((neighbors st)[u := neighbors st ! u - {v}])
                     [v := ((neighbors st)[u := neighbors st ! u - {v}]) ! v - {u}],
                  degree := ((degree st)[u := degree st ! u - 1])
                     [v := ((degree st)[u := degree st ! u - 1]) ! v - 1]\<rparr>)
               (h\<lparr>es := removeAll (u, v) (es h)\<rparr>)"
proof -
  from assms have sg: "simple_graph h" by (simp add: books_def)
  from sg assms(2) have uv: "u < v" "v < vcount h" by (auto dest: simple_graph_edge)
  have dg: "degree st = graph_degree h"
    and nb: "neighbors st = map (\<lambda>v. set (graph_neighbors h v)) [0..<vcount h]"
    and ed: "edges st = es h"
    using assms(1) by (simp_all add: books_def)
  let ?h = "h\<lparr>es := removeAll (u, v) (es h)\<rparr>"
  have 1: "((degree st)[u := degree st ! u - 1])
             [v := ((degree st)[u := degree st ! u - 1]) ! v - 1] = graph_degree ?h"
    using uv unfolding dg graph_degree_def
    by (intro nth_equalityI) (auto simp: nth_list_update degree_at_removeAll[OF sg assms(2)])
  have 2: "((neighbors st)[u := neighbors st ! u - {v}])
             [v := ((neighbors st)[u := neighbors st ! u - {v}]) ! v - {u}]
           = map (\<lambda>w. set (graph_neighbors ?h w)) [0..<vcount ?h]"
    using uv unfolding nb
    by (intro nth_equalityI) (auto simp: nth_list_update neighbors_removeAll[OF sg assms(2)])
  show ?thesis
    unfolding books_def using 1 2 ed simple_graph_removeAll[OF sg] by simp
qed

lemma books_lengths:
  "books st h \<Longrightarrow> length (degree st) = vcount h \<and> length (neighbors st) = vcount h"
  by (simp add: books_def graph_degree_def)

lemma discard_edges_books:
  assumes "books st h" and "set del \<subseteq> set (es h)" and "distinct del"
  shows "\<exists>st'. discard_edges del st = Inr st'
            \<and> books st' (h\<lparr>es := filter (\<lambda>e. e \<notin> set del) (es h)\<rparr>)
            \<and> g st' = g st \<and> n_components st' = n_components st"
  using assms
proof (induction del arbitrary: st h)
  case Nil
  then show ?case by simp
next
  case (Cons e del)
  obtain u v where e: "e = (u, v)" by (cases e)
  from Cons.prems e have mem: "(u, v) \<in> set (es h)" by simp
  from Cons.prems(1) have sg: "simple_graph h" by (simp add: books_def)
  from sg mem have uv: "u < v" "v < vcount h" by (auto dest: simple_graph_edge)
  let ?st = "st\<lparr>edges := removeAll (u, v) (edges st),
                  neighbors := ((neighbors st)[u := neighbors st ! u - {v}])
                     [v := ((neighbors st)[u := neighbors st ! u - {v}]) ! v - {u}],
                  degree := ((degree st)[u := degree st ! u - 1])
                     [v := ((degree st)[u := degree st ! u - 1]) ! v - 1]\<rparr>"
  let ?h = "h\<lparr>es := removeAll (u, v) (es h)\<rparr>"
  have b: "books ?st ?h" by (rule discard_step[OF Cons.prems(1) mem])
  have sub: "set del \<subseteq> set (es ?h)" using Cons.prems(2,3) e by auto
  have dis: "distinct del" using Cons.prems(3) by simp
  from Cons.IH[OF b sub dis] obtain st' where
    r: "discard_edges del ?st = Inr st'"
    and b': "books st' (?h\<lparr>es := filter (\<lambda>e. e \<notin> set del) (es ?h)\<rparr>)"
    and g': "g st' = g ?st" and n': "n_components st' = n_components ?st"
    by blast
  have step: "discard_edges (e # del) st = discard_edges del ?st"
    using e uv books_lengths[OF Cons.prems(1)] by (simp add: Let_def)
  have "filter (\<lambda>x. x \<notin> set del) (removeAll (u, v) (es h))
          = filter (\<lambda>x. x \<notin> set (e # del)) (es h)"
    unfolding e removeAll_filter_not_eq by (auto intro: filter_cong)
  with b' have "books st' (h\<lparr>es := filter (\<lambda>x. x \<notin> set (e # del)) (es h)\<rparr>)" by simp
  with step r g' n' show ?case by simp
qed

lemma scorer_truthy:
  assumes "consistent st" and "is_scorer f"
  shows "truthy_scores (score_of f st) (edges st)"
  unfolding truthy_scores_def score_of_def
proof
  fix e assume "e \<in> set (edges st)"
  then have m: "(fst e, snd e) \<in> set (edges st)" by simp
  from assms(2) show "\<exists>s. f (fst e) (snd e) (degree st) (neighbors st) = Inr s \<and> \<not> falsy (Some s)"
    unfolding is_scorer_def
    using coefficient_3_score[OF assms(1) m] coefficient_4_score[OF assms(1) m] by blast
qed

lemma iterate_edges_set [simp]: "set (iterate_edges io xs) = set xs"
  by (simp add: iterate_edges_def)

lemma iterate_edges_distinct [simp]: "distinct (iterate_edges io xs) = distinct xs"
  by (simp add: iterate_edges_def)

lemma remove_weakest_consistent:
  assumes "consistent st" and "edges st \<noteq> []" and "is_scorer f"
  shows "\<exists>st' m. remove_weakest io f st = Inr st'
           \<and> is_min_score (score_of f st) (edges st) m
           \<and> g st' = (g st)\<lparr>es := filter (\<lambda>e. score_of f st e \<noteq> Inr m) (es (g st))\<rparr>
           \<and> consistent st' \<and> n_components st' = n_components st"
proof -
  let ?xs = "iterate_edges io (edges st)"
  let ?sc = "score_of f st"
  have ed: "edges st = es (g st)" and sg: "simple_graph (g st)"
    using assms(1) by (simp_all add: consistent_def)
  have dist: "distinct (es (g st))" using sg by (simp add: simple_graph_def)
  have t: "truthy_scores ?sc ?xs"
    using scorer_truthy[OF assms(1,3)] by (simp add: truthy_scores_def)
  have ne: "?xs \<noteq> []" using assms(2) by (metis iterate_edges_set set_empty)
  from select_min_tied[OF t ne] obtain m where
    sel: "select_min ?sc ?xs ([], None) = Inr (filter (\<lambda>e. ?sc e = Inr m) ?xs, Some m)"
    and mn: "is_min_score ?sc ?xs m"
    by blast
  let ?del = "filter (\<lambda>e. ?sc e = Inr m) ?xs"
  let ?g = "(g st)\<lparr>es := filter (\<lambda>e. e \<notin> set ?del) (es (g st))\<rparr>"
  have sub: "set ?del \<subseteq> set (es (g st))" using ed by auto
  have dd: "distinct ?del" using dist ed by simp
  have del: "graph_delete_edges (g st) ?del = Inr ?g"
    using sub by (auto simp: graph_delete_edges_def list_all_iff)
  have b: "books (st\<lparr>g := ?g\<rparr>) (g st)"
    using assms(1) by (simp add: consistent_def books_def)
  from discard_edges_books[OF b sub dd] obtain st' where
    r: "discard_edges ?del (st\<lparr>g := ?g\<rparr>) = Inr st'"
    and b': "books st' ?g" and g': "g st' = ?g"
    and n': "n_components st' = n_components st"
    by auto
  have feq: "filter (\<lambda>e. e \<notin> set ?del) (es (g st)) = filter (\<lambda>e. ?sc e \<noteq> Inr m) (es (g st))"
    using ed by (auto intro: filter_cong)
  have "remove_weakest io f st = Inr st'"
    using sel del r
    by (simp add: remove_weakest_def ebind_def score_of_def[abs_def])
  moreover have "is_min_score ?sc (edges st) m"
    using mn is_min_score_set[of ?xs "edges st"] by simp
  moreover have "consistent st'" using b' g' by (simp add: consistent_books)
  ultimately show ?thesis using g' n' feq by auto
qed

lemma consistent_state_eq:
  assumes "consistent s1" and "consistent s2" and "g s1 = g s2"
    and "n_components s1 = n_components s2"
  shows "s1 = (s2 :: state)"
  using assms by (intro state.equality) (simp_all add: consistent_def)

lemma remove_weakest_order:
  assumes "consistent st" and "edges st \<noteq> []" and "is_scorer f"
  shows "remove_weakest io1 f st = remove_weakest io2 f st"
proof -
  from remove_weakest_consistent[OF assms, of io1] obtain s1 m1 where
    1: "remove_weakest io1 f st = Inr s1" "is_min_score (score_of f st) (edges st) m1"
       "g s1 = (g st)\<lparr>es := filter (\<lambda>e. score_of f st e \<noteq> Inr m1) (es (g st))\<rparr>"
       "consistent s1" "n_components s1 = n_components st"
    by blast
  from remove_weakest_consistent[OF assms, of io2] obtain s2 m2 where
    2: "remove_weakest io2 f st = Inr s2" "is_min_score (score_of f st) (edges st) m2"
       "g s2 = (g st)\<lparr>es := filter (\<lambda>e. score_of f st e \<noteq> Inr m2) (es (g st))\<rparr>"
       "consistent s2" "n_components s2 = n_components st"
    by blast
  have "m1 = m2" using 1(2) 2(2) by (rule is_min_score_unique)
  then have "s1 = s2"
    using 1 2 by (intro consistent_state_eq) simp_all
  with 1(1) 2(1) show ?thesis by simp
qed

text \<open>
  C4: in every pass of the loop over a non-empty edge set (the state is consistent with
  its simple working graph, as the initial state of a call is and as every pass leaves
  it), the edges deleted are exactly the current edges whose score equals the least
  score over all current edges, ties at +infinity included, and the number of edges
  removed is the number of edges tied at that minimum.
\<close>

theorem batch_removal:
  assumes "consistent st" and "edges st \<noteq> []" and "is_scorer f"
  shows "\<exists>st' m. remove_weakest io f st = Inr st'
           \<and> is_min_score (score_of f st) (edges st) m
           \<and> set (es (g st)) - set (es (g st')) = {e \<in> set (edges st). score_of f st e = Inr m}
           \<and> length (es (g st)) - length (es (g st'))
               = card {e \<in> set (edges st). score_of f st e = Inr m}
           \<and> edges st' = es (g st') \<and> consistent st'"
proof -
  from remove_weakest_consistent[OF assms, of io] obtain st' m where
    r: "remove_weakest io f st = Inr st'"
    and mn: "is_min_score (score_of f st) (edges st) m"
    and g': "g st' = (g st)\<lparr>es := filter (\<lambda>e. score_of f st e \<noteq> Inr m) (es (g st))\<rparr>"
    and c': "consistent st'"
    by blast
  have ed: "edges st = es (g st)" and dist: "distinct (es (g st))"
    using assms(1) by (simp_all add: consistent_def simple_graph_def)
  have 1: "set (es (g st)) - set (es (g st')) = {e \<in> set (edges st). score_of f st e = Inr m}"
    unfolding g' ed by auto
  have "length (es (g st)) =
          length (filter (\<lambda>e. score_of f st e = Inr m) (es (g st)))
          + length (filter (\<lambda>e. score_of f st e \<noteq> Inr m) (es (g st)))"
    using sum_length_filter_compl[of "\<lambda>e. score_of f st e = Inr m" "es (g st)"] by simp
  moreover have "card {e \<in> set (edges st). score_of f st e = Inr m}
          = length (filter (\<lambda>e. score_of f st e = Inr m) (es (g st)))"
    using dist distinct_card[of "filter (\<lambda>e. score_of f st e = Inr m) (es (g st))"]
    unfolding ed by simp
  ultimately have 2: "length (es (g st)) - length (es (g st'))
               = card {e \<in> set (edges st). score_of f st e = Inr m}"
    unfolding g' by simp
  from c' have "edges st' = es (g st')" by (simp add: consistent_def)
  with r mn 1 2 c' show ?thesis by blast
qed

theorem batch_removal_witness:
  "consistent (init_state two_triangles) \<and> edges (init_state two_triangles) \<noteq> []
   \<and> is_scorer edge_clustering_coefficient_3
   \<and> (\<exists>st' m. remove_weakest io0 edge_clustering_coefficient_3 (init_state two_triangles) = Inr st'
        \<and> is_min_score (score_of edge_clustering_coefficient_3 (init_state two_triangles))
             (edges (init_state two_triangles)) m
        \<and> set (es (g (init_state two_triangles))) - set (es (g st'))
            = {e \<in> set (edges (init_state two_triangles)).
                 score_of edge_clustering_coefficient_3 (init_state two_triangles) e = Inr m}
        \<and> length (es (g (init_state two_triangles))) - length (es (g st'))
            = card {e \<in> set (edges (init_state two_triangles)).
                 score_of edge_clustering_coefficient_3 (init_state two_triangles) e = Inr m}
        \<and> edges st' = es (g st') \<and> consistent st')"
proof -
  have c: "consistent (init_state two_triangles)"
    by (rule consistent_init_state) (simp add: simple_graph_def two_triangles_def)
  have n: "edges (init_state two_triangles) \<noteq> []"
    by (simp add: init_state_def two_triangles_def)
  have s: "is_scorer edge_clustering_coefficient_3" by (simp add: is_scorer_def)
  from batch_removal[OF c n s, of io0] c n s show ?thesis by blast
qed

subsection \<open>Pruning\<close>

lemma map_err_Inr:
  "map_err f xs = Inr ys \<Longrightarrow> length ys = length xs \<and> (\<forall>i<length xs. f (xs ! i) = Inr (ys ! i))"
proof (induction xs arbitrary: ys)
  case Nil
  then show ?case by simp
next
  case (Cons x xs)
  from Cons.prems obtain y ys' where y: "f x = Inr y" and r: "map_err f xs = Inr ys'"
    and ys: "ys = y # ys'"
    by (auto simp: ebind_def split: sum.splits)
  from Cons.IH[OF r] have "length ys' = length xs" "\<forall>i<length xs. f (xs ! i) = Inr (ys' ! i)"
    by simp_all
  with y ys show ?case by (auto simp: nth_Cons split: nat.splits)
qed

lemma map_err_total:
  "(\<And>x. x \<in> set xs \<Longrightarrow> \<exists>y. f x = Inr y) \<Longrightarrow> \<exists>ys. map_err f xs = Inr ys"
proof (induction xs)
  case Nil
  then show ?case by simp
next
  case (Cons x xs)
  then obtain y ys where "f x = Inr y" "map_err f xs = Inr ys" by (metis list.set_intros)
  then show ?case by (simp add: ebind_def)
qed

lemma map_err_get: "map_err (get ids) c = Inr oc \<Longrightarrow> oc = map (\<lambda>v. ids ! v) c"
proof -
  assume a: "map_err (get ids) c = Inr oc"
  from map_err_Inr[OF a] have l: "length oc = length c"
    and n: "\<forall>i<length c. get ids (c ! i) = Inr (oc ! i)" by simp_all
  show ?thesis
  proof (rule nth_equalityI)
    show "length oc = length (map (\<lambda>v. ids ! v) c)" using l by simp
  next
    fix i assume "i < length oc"
    with l n have "get ids (c ! i) = Inr (oc ! i)" by simp
    then show "oc ! i = map (\<lambda>v. ids ! v) c ! i"
      using \<open>i < length oc\<close> l by (auto simp: get_def split: if_splits)
  qed
qed

lemma map_nth_filter_upt:
  "map (\<lambda>i. xs ! i) (filter (\<lambda>i. P (xs ! i)) [0..<length xs]) = filter P xs"
proof (induction xs rule: rev_induct)
  case Nil
  then show ?case by simp
next
  case (snoc x xs)
  have "filter (\<lambda>i. P ((xs @ [x]) ! i)) [0..<length xs] = filter (\<lambda>i. P (xs ! i)) [0..<length xs]"
    by (rule filter_cong) (auto simp: nth_append)
  moreover have "map (\<lambda>i. (xs @ [x]) ! i) (filter (\<lambda>i. P (xs ! i)) [0..<length xs])
       = map (\<lambda>i. xs ! i) (filter (\<lambda>i. P (xs ! i)) [0..<length xs])"
    by (rule map_cong) (auto simp: nth_append)
  ultimately show ?case using snoc by (simp add: nth_append)
qed

lemma iterate_vertices_set [simp]: "set (iterate_vertices io xs) = set xs"
  by (simp add: iterate_vertices_def)

lemma iterate_vertices_distinct [simp]: "distinct (iterate_vertices io xs) = distinct xs"
  by (simp add: iterate_vertices_def)

lemma prune_components_result:
  assumes "prune_components io orig new m = Inr r"
  shows "r = (if 2 \<le> length (confirmed orig new m)
              then \<lparr>pruned = True,
                    orig_communities = Some (map (map (\<lambda>v. vs_id new ! v)) (confirmed orig new m)),
                    new_communities = Some (confirmed orig new m),
                    remaining = Some (iterate_vertices io
                       (filter (\<lambda>v. v \<notin> set (concat (confirmed orig new m))) [0..<vcount new]))\<rparr>
              else \<lparr>pruned = False, orig_communities = None, new_communities = None,
                    remaining = None\<rparr>)"
proof -
  let ?cs = "graph_components new"
  from assms obtain ocs flags where
    ocs: "map_err (\<lambda>component. map_err (get (vs_id new)) component) ?cs = Inr ocs"
    and fl: "map_err (is_community m orig) ocs = Inr flags"
    by (auto simp: prune_components_def Let_def ebind_def split: sum.splits)
  from map_err_Inr[OF ocs] have locs: "length ocs = length ?cs"
    and nocs: "\<forall>i<length ?cs. map_err (get (vs_id new)) (?cs ! i) = Inr (ocs ! i)" by simp_all
  have ocs_eq: "ocs = map (map (\<lambda>v. vs_id new ! v)) ?cs"
  proof (rule nth_equalityI)
    show "length ocs = length (map (map (\<lambda>v. vs_id new ! v)) ?cs)" using locs by simp
  next
    fix i assume i: "i < length ocs"
    with locs nocs have "map_err (get (vs_id new)) (?cs ! i) = Inr (ocs ! i)" by simp
    from map_err_get[OF this] show "ocs ! i = map (map (\<lambda>v. vs_id new ! v)) ?cs ! i"
      using i locs by simp
  qed
  from map_err_Inr[OF fl] have lfl: "length flags = length ocs"
    and nfl: "\<forall>i<length ocs. is_community m orig (ocs ! i) = Inr (flags ! i)" by simp_all
  let ?P = "\<lambda>c. is_community m orig (map (\<lambda>v. vs_id new ! v) c) = Inr True"
  have idx: "filter (\<lambda>i. flags ! i) [0..<length ocs] = filter (\<lambda>i. ?P (?cs ! i)) [0..<length ?cs]"
    unfolding locs
    by (rule filter_cong) (use nfl locs ocs_eq in auto)
  have newc: "map (\<lambda>i. ?cs ! i) (filter (\<lambda>i. flags ! i) [0..<length ocs]) = confirmed orig new m"
    unfolding idx confirmed_def by (rule map_nth_filter_upt)
  have origc: "map (\<lambda>i. ocs ! i) (filter (\<lambda>i. flags ! i) [0..<length ocs])
                 = map (map (\<lambda>v. vs_id new ! v)) (confirmed orig new m)"
  proof -
    have "map (\<lambda>i. ocs ! i) (filter (\<lambda>i. flags ! i) [0..<length ocs])
        = map (map (\<lambda>v. vs_id new ! v)) (map (\<lambda>i. ?cs ! i) (filter (\<lambda>i. flags ! i) [0..<length ocs]))"
      using locs ocs_eq by (auto simp: comp_def)
    then show ?thesis unfolding newc .
  qed
  have len: "length (filter (\<lambda>i. flags ! i) [0..<length ocs]) = length (confirmed orig new m)"
    using newc by (metis length_map)
  have "prune_components io orig new m =
      (if 1 < length (filter (\<lambda>i. flags ! i) [0..<length ocs])
       then Inr \<lparr>pruned = True,
               orig_communities = Some (map (\<lambda>i. ocs ! i) (filter (\<lambda>i. flags ! i) [0..<length ocs])),
               new_communities = Some (map (\<lambda>i. ?cs ! i) (filter (\<lambda>i. flags ! i) [0..<length ocs])),
               remaining = Some (iterate_vertices io
                 (filter (\<lambda>v. v \<notin> set (concat (map (\<lambda>i. ?cs ! i)
                     (filter (\<lambda>i. flags ! i) [0..<length ocs])))) [0..<vcount new]))\<rparr>
       else Inr \<lparr>pruned = False, orig_communities = None, new_communities = None,
                 remaining = None\<rparr>)"
    using ocs fl by (simp add: prune_components_def Let_def ebind_def)
  with assms show ?thesis
    unfolding newc origc len by (auto split: if_splits)
qed


lemma radicchi_while_continue:
  assumes "edges st \<noteq> []" and "remove_weakest io f st = Inr st'"
    and "n_components st' < length (graph_components (g st'))"
    and "prune_components io G (g st') m = Inr r" and "\<not> pruned r"
  shows "radicchi_while io G level m f st =
           radicchi_while io G level m f (st'\<lparr>n_components := length (graph_components (g st'))\<rparr>)"
  using assms by (subst radicchi_while.simps) (simp add: ebind_def Let_def)

lemma length_concat_ge: "(\<And>p. p \<in> set ps \<Longrightarrow> p \<noteq> []) \<Longrightarrow> length ps \<le> length (concat ps)"
proof (induction ps)
  case Nil
  then show ?case by simp
next
  case (Cons p ps)
  then have "p \<noteq> []" "length ps \<le> length (concat ps)" by simp_all
  then show ?case by (cases p) simp_all
qed

lemma radicchi_while_stop:
  assumes "edges st \<noteq> []" and "remove_weakest io f st = Inr st'"
    and "n_components st' < length (graph_components (g st'))"
    and "prune_components io G (g st') m = Inr r" and "\<not> pruned r" and "edges st' = []"
  shows "radicchi_while io G level m f st = Inr []"
proof -
  have "radicchi_while io G level m f (st'\<lparr>n_components := length (graph_components (g st'))\<rparr>)
        = Inr []"
    using assms(6)
    by (subst radicchi_while.simps)
      (simp del: radicchi_while.simps radicchi_internal.simps)
  with radicchi_while_continue[OF assms(1-5)] show ?thesis by simp
qed

lemma radicchi_while_active:
  assumes "edges st \<noteq> []" and "remove_weakest io f st = Inr st'"
    and "n_components st' < length (graph_components (g st'))"
    and "prune_components io G (g st') m = Inr r" and "pruned r"
    and "radicchi_while io G level m f st = Inr res"
  shows "length (confirmed G (g st') m) \<le> length res"
proof -
  let ?nw = "confirmed G (g st') m"
  let ?oc = "map (map (\<lambda>v. vs_id (g st') ! v)) ?nw"
  from prune_components_result[OF assms(4)] assms(5)
  obtain rm where fields: "orig_communities r = Some ?oc" "new_communities r = Some ?nw"
    "remaining r = Some rm"
    by (auto split: if_splits)
  let ?F = "\<lambda>ic. ebind (graph_subgraph (g st') (snd ic)) (\<lambda>s.
              ebind (radicchi_internal io G s (level + 1) m 3) (\<lambda>subcommunities.
              if length subcommunities = 0
              then ebind (get ?oc (fst ic)) (\<lambda>c. Inr [c])
              else Inr subcommunities))"
  let ?T = "\<lambda>parts.
              ebind (map_err (get (vs_id (g st'))) rm) (\<lambda>orig_remaining.
              ebind (graph_subgraph (g st') rm) (\<lambda>r.
              ebind (radicchi_internal io G r (level + 1) m 3) (\<lambda>subcommunities.
              Inr (concat parts @ map (\<lambda>i. [i])
                     (filter (\<lambda>i. i \<notin> set (concat subcommunities)) orig_remaining)))))"
  have unf: "radicchi_while io G level m f st = ebind (map_err ?F (enumerate 0 ?nw)) ?T"
    using assms(1-5) fields
    by (subst radicchi_while.simps)
      (simp add: ebind_def Let_def del: radicchi_while.simps radicchi_internal.simps)
  with assms(6) obtain parts where p: "map_err ?F (enumerate 0 ?nw) = Inr parts"
    and t: "?T parts = Inr res"
    by (cases "map_err ?F (enumerate 0 ?nw)") (simp_all add: ebind_def)
  from t have res: "length (concat parts) \<le> length res"
    by (auto simp: ebind_def split: sum.splits)
  from map_err_Inr[OF p] have len: "length parts = length ?nw"
    and each: "\<forall>i<length ?nw. ?F (enumerate 0 ?nw ! i) = Inr (parts ! i)"
    by simp_all
  have "p \<noteq> []" if "p \<in> set parts" for p
  proof -
    from that len obtain i where i: "i < length ?nw" "p = parts ! i"
      by (metis in_set_conv_nth)
    with each have "?F (enumerate 0 ?nw ! i) = Inr p" by simp
    then show ?thesis
      by (auto simp: ebind_def split: sum.splits if_splits)
  qed
  then have "length parts \<le> length (concat parts)" by (rule length_concat_ge)
  with res len show ?thesis by simp
qed

text \<open>
  C7: pruning is active exactly when two or more components of the working graph satisfy
  the predicate of the measure. When it is active, the confirmed groups are those
  components and the remaining vertices are exactly the working vertices that belong to
  no confirmed component; the call acts on the split, and what it returns has at least
  one group for every confirmed component. When it is not active, the call takes nothing
  from the split: its result is the result of the edge-removal loop continued from the
  state after the deletion, with the new component count as baseline (the empty list when
  no edge is left). On \<open>two_cliques\<close> the first split is not active and the loop goes on
  to a second one, which is.
\<close>

theorem pruning_active_iff:
  assumes "prune_components io orig new m = Inr r"
  shows "(pruned r \<longleftrightarrow> 2 \<le> length (confirmed orig new m))
       \<and> (pruned r \<longrightarrow>
            new_communities r = Some (confirmed orig new m)
            \<and> orig_communities r = Some (map (map (\<lambda>v. vs_id new ! v)) (confirmed orig new m))
            \<and> (\<exists>rem. remaining r = Some rem
                  \<and> set rem = {v. v < vcount new \<and> (\<forall>c\<in>set (confirmed orig new m). v \<notin> set c)}))
       \<and> (\<not> pruned r \<and> edges st \<noteq> [] \<and> remove_weakest io f st = Inr st' \<and> g st' = new
            \<and> n_components st' < length (graph_components new) \<longrightarrow>
            radicchi_while io orig level m f st =
              radicchi_while io orig level m f
                (st'\<lparr>n_components := length (graph_components new)\<rparr>)
            \<and> (edges st' = [] \<longrightarrow> radicchi_while io orig level m f st = Inr []))
       \<and> (pruned r \<and> edges st \<noteq> [] \<and> remove_weakest io f st = Inr st' \<and> g st' = new
            \<and> n_components st' < length (graph_components new)
            \<and> radicchi_while io orig level m f st = Inr res \<longrightarrow>
            length (confirmed orig new m) \<le> length res)"
proof -
  note r = prune_components_result[OF assms]
  have 1: "pruned r \<longleftrightarrow> 2 \<le> length (confirmed orig new m)"
    using r by (simp split: if_splits)
  have 2: "pruned r \<longrightarrow>
            new_communities r = Some (confirmed orig new m)
            \<and> orig_communities r = Some (map (map (\<lambda>v. vs_id new ! v)) (confirmed orig new m))
            \<and> (\<exists>rem. remaining r = Some rem
                  \<and> set rem = {v. v < vcount new \<and> (\<forall>c\<in>set (confirmed orig new m). v \<notin> set c)})"
    using r by (auto split: if_splits)
  have 3: "\<not> pruned r \<and> edges st \<noteq> [] \<and> remove_weakest io f st = Inr st' \<and> g st' = new
            \<and> n_components st' < length (graph_components new) \<longrightarrow>
            radicchi_while io orig level m f st =
              radicchi_while io orig level m f
                (st'\<lparr>n_components := length (graph_components new)\<rparr>)
            \<and> (edges st' = [] \<longrightarrow> radicchi_while io orig level m f st = Inr [])"
    using assms radicchi_while_continue[of st io f st' orig m r level]
      radicchi_while_stop[of st io f st' orig m r level]
    by auto
  have 4: "pruned r \<and> edges st \<noteq> [] \<and> remove_weakest io f st = Inr st' \<and> g st' = new
            \<and> n_components st' < length (graph_components new)
            \<and> radicchi_while io orig level m f st = Inr res \<longrightarrow>
            length (confirmed orig new m) \<le> length res"
    using assms radicchi_while_active[of st io f st' orig m r level res] by auto
  from 1 2 3 4 show ?thesis by blast
qed

theorem pruning_active_iff_witness:
  "remove_weakest io0 edge_clustering_coefficient_3
       (init_state (two_cliques\<lparr>vs_id := [0..<11]\<rparr>)) = Inr two_cliques_pass1
   \<and> prune_components io0 two_cliques (g two_cliques_pass1) ''strong'' =
         Inr \<lparr>pruned = False, orig_communities = None,
              new_communities = None, remaining = None\<rparr>
   \<and> length (confirmed two_cliques (g two_cliques_pass1) ''strong'') < 2
   \<and> radicchi_while io0 two_cliques 0 ''strong'' edge_clustering_coefficient_3
         (init_state (two_cliques\<lparr>vs_id := [0..<11]\<rparr>))
       = radicchi_while io0 two_cliques 0 ''strong'' edge_clustering_coefficient_3
           (two_cliques_pass1\<lparr>n_components := 2\<rparr>)
   \<and> remove_weakest io0 edge_clustering_coefficient_3 (two_cliques_pass1\<lparr>n_components := 2\<rparr>)
       = Inr two_cliques_pass2
   \<and> prune_components io0 two_cliques (g two_cliques_pass2) ''strong'' =
         Inr \<lparr>pruned = True, orig_communities = Some [[0,1,2,3],[4,5,6,7]],
              new_communities = Some [[0,1,2,3],[4,5,6,7]], remaining = Some [8,9,10]\<rparr>
   \<and> confirmed two_cliques (g two_cliques_pass2) ''strong'' = [[0,1,2,3],[4,5,6,7]]
   \<and> radicchi_while io0 two_cliques 0 ''strong'' edge_clustering_coefficient_3
         (init_state (two_cliques\<lparr>vs_id := [0..<11]\<rparr>))
       = Inr [[0,1,2,3],[4,5,6,7],[8],[9],[10]]
   \<and> length (confirmed two_cliques (g two_cliques_pass2) ''strong'')
       \<le> length [[0,1,2,3],[4,5,6,7],[8],[9],[10::nat]]
   \<and> radicchi_while io0 one_edge 0 ''strong'' edge_clustering_coefficient_3 (init_state one_edge)
       = Inr []"
proof -
  let ?st0 = "init_state (two_cliques\<lparr>vs_id := [0..<11]\<rparr>)"
  let ?st1 = "two_cliques_pass1\<lparr>n_components := 2\<rparr>"
  have p1: "remove_weakest io0 edge_clustering_coefficient_3 ?st0 = Inr two_cliques_pass1"
    by code_simp
  have i1: "prune_components io0 two_cliques (g two_cliques_pass1) ''strong'' =
         Inr \<lparr>pruned = False, orig_communities = None,
              new_communities = None, remaining = None\<rparr>"
    by code_simp
  have c1: "length (graph_components (g two_cliques_pass1)) = 2"
    by code_simp
  have n1: "n_components two_cliques_pass1 = 1" by (simp add: two_cliques_pass1_def)
  have e0: "edges ?st0 \<noteq> []" by (simp add: init_state_def two_cliques_def)
  have p2: "remove_weakest io0 edge_clustering_coefficient_3 ?st1 = Inr two_cliques_pass2"
    by code_simp
  have i2: "prune_components io0 two_cliques (g two_cliques_pass2) ''strong'' =
         Inr \<lparr>pruned = True, orig_communities = Some [[0,1,2,3],[4,5,6,7]],
              new_communities = Some [[0,1,2,3],[4,5,6,7]], remaining = Some [8,9,10]\<rparr>"
    by code_simp
  have c2: "length (graph_components (g two_cliques_pass2)) = 4"
    by code_simp
  have n2: "n_components two_cliques_pass2 = 2" by (simp add: two_cliques_pass2_def)
  have e1: "edges ?st1 \<noteq> []" by (simp add: two_cliques_pass1_def)
  have r1: "radicchi_while io0 two_cliques 0 ''strong'' edge_clustering_coefficient_3 ?st1
            = Inr [[0,1,2,3],[4,5,6,7],[8],[9],[10]]"
    by code_simp
  from pruning_active_iff[OF i1, of ?st0 edge_clustering_coefficient_3 two_cliques_pass1 0]
    p1 c1 n1 e0
  have a: "length (confirmed two_cliques (g two_cliques_pass1) ''strong'') < 2
     \<and> radicchi_while io0 two_cliques 0 ''strong'' edge_clustering_coefficient_3 ?st0
       = radicchi_while io0 two_cliques 0 ''strong'' edge_clustering_coefficient_3 ?st1"
    by simp
  from pruning_active_iff[OF i2, of ?st1 edge_clustering_coefficient_3 two_cliques_pass2 0
      "[[0,1,2,3],[4,5,6,7],[8],[9],[10]]"] p2 c2 n2 e1 r1
  have b: "confirmed two_cliques (g two_cliques_pass2) ''strong'' = [[0,1,2,3],[4,5,6,7]]
     \<and> length (confirmed two_cliques (g two_cliques_pass2) ''strong'')
       \<le> length [[0,1,2,3],[4,5,6,7],[8],[9],[10::nat]]"
    by simp
  have w2: "prune_components io0 one_edge (one_edge\<lparr>es := []\<rparr>) ''strong'' =
         Inr \<lparr>pruned = False, orig_communities = None,
              new_communities = None, remaining = None\<rparr>"
    by code_simp
  have w3: "remove_weakest io0 edge_clustering_coefficient_3 (init_state one_edge) =
     Inr \<lparr>g = one_edge\<lparr>es := []\<rparr>, degree = [0, 0], neighbors = [{}, {}], edges = [],
          n_components = 1\<rparr>"
    by code_simp
  have w4: "length (graph_components (one_edge\<lparr>es := []\<rparr>)) = 2"
    by code_simp
  have w5: "edges (init_state one_edge) \<noteq> []"
    by (simp add: init_state_def one_edge_def)
  let ?e = "\<lparr>g = one_edge\<lparr>es := []\<rparr>, degree = [0, 0], neighbors = [{}, {}], edges = [],
          n_components = 1\<rparr>"
  have pre: "\<not> pruned \<lparr>pruned = False, orig_communities = None, new_communities = None,
                         remaining = None\<rparr>
      \<and> edges (init_state one_edge) \<noteq> []
      \<and> remove_weakest io0 edge_clustering_coefficient_3 (init_state one_edge) = Inr ?e
      \<and> g ?e = one_edge\<lparr>es := []\<rparr>
      \<and> n_components ?e < length (graph_components (one_edge\<lparr>es := []\<rparr>))"
    using w3 w4 w5 by simp
  from pruning_active_iff[OF w2, of "init_state one_edge" edge_clustering_coefficient_3 ?e 0]
    pre
  have "edges ?e = [] \<longrightarrow>
        radicchi_while io0 one_edge 0 ''strong'' edge_clustering_coefficient_3
             (init_state one_edge) = Inr []"
    by blast
  then have c: "radicchi_while io0 one_edge 0 ''strong'' edge_clustering_coefficient_3
             (init_state one_edge) = Inr []"
    by simp
  from p1 i1 a p2 i2 b r1 c show ?thesis by simp
qed

subsection \<open>Induced subgraphs\<close>

lemma rank_less:
  assumes "a \<in> set keep" and "a < b"
  shows "length (filter (\<lambda>w. w < a) keep) < length (filter (\<lambda>w. w < (b::nat)) keep)"
proof -
  have "filter (\<lambda>w. w < a) keep = filter (\<lambda>w. w < a) (filter (\<lambda>w. w < b) keep)"
    using assms(2) by (auto intro: filter_cong)
  moreover have "a \<in> set (filter (\<lambda>w. w < b) keep)" using assms by simp
  ultimately show ?thesis
    by (metis length_filter_less less_irrefl)
qed

lemma rank_bound:
  assumes "a \<in> set keep"
  shows "length (filter (\<lambda>w. w < (a::nat)) keep) < length keep"
  using assms by (metis length_filter_less less_irrefl)

lemma rank_inj:
  assumes "a \<in> set keep" and "b \<in> set keep"
    and "length (filter (\<lambda>w. w < a) keep) = length (filter (\<lambda>w. w < (b::nat)) keep)"
  shows "a = b"
  using assms rank_less[of a keep b] rank_less[of b keep a]
  by (metis less_irrefl linorder_neqE_nat)

lemma graph_subgraph_set:
  "set vs = set ws \<Longrightarrow> graph_subgraph gr vs = graph_subgraph gr ws"
  by (simp add: graph_subgraph_def list_all_iff)

lemma graph_subgraph_working:
  assumes "working G gr" and "\<forall>v\<in>set vs. v < vcount gr"
  shows "\<exists>s. graph_subgraph gr vs = Inr s \<and> working G s
           \<and> vs_id s = map (\<lambda>v. vs_id gr ! v) (filter (\<lambda>v. v \<in> set vs) [0..<vcount gr])"
proof -
  let ?keep = "filter (\<lambda>v. v \<in> set vs) [0..<vcount gr]"
  let ?idx = "\<lambda>v. length (filter (\<lambda>w. w < v) ?keep)"
  let ?el = "filter (\<lambda>e. fst e \<in> set vs \<and> snd e \<in> set vs) (es gr)"
  let ?s = "\<lparr>vcount = length ?keep, es = map (\<lambda>e. (?idx (fst e), ?idx (snd e))) ?el,
             vs_id = map (\<lambda>v. vs_id gr ! v) ?keep\<rparr>"
  from assms(1) have sg: "simple_graph gr" and len: "length (vs_id gr) = vcount gr"
    and dist: "distinct (vs_id gr)" and bnd: "\<forall>i\<in>set (vs_id gr). i < vcount G"
    by (simp_all add: working_def)
  have keep: "set ?keep = set vs" using assms(2) by auto
  have f: "filter (\<lambda>v. v < length (vs_id gr)) ?keep = ?keep"
    unfolding len by (rule filter_True) simp
  have eq: "graph_subgraph gr vs = Inr ?s"
    using assms(2) f by (simp add: graph_subgraph_def list_all_iff Let_def)
  have e_in: "\<And>e. e \<in> set ?el \<Longrightarrow> fst e \<in> set ?keep \<and> snd e \<in> set ?keep \<and> fst e < snd e"
    using sg keep by (auto simp: simple_graph_def list_all_iff)
  have 1: "list_all (\<lambda>e. fst e < snd e \<and> snd e < vcount ?s) (es ?s)"
    unfolding list_all_iff
  proof
    fix e' assume "e' \<in> set (es ?s)"
    then obtain e where e: "e \<in> set ?el" and e': "e' = (?idx (fst e), ?idx (snd e))"
      by auto
    from e_in[OF e] show "fst e' < snd e' \<and> snd e' < vcount ?s"
      unfolding e' using rank_less[of "fst e" ?keep "snd e"] rank_bound[of "snd e" ?keep]
      by simp
  qed
  have "inj_on (\<lambda>e. (?idx (fst e), ?idx (snd e))) (set ?el)"
  proof (rule inj_onI)
    fix x y assume x: "x \<in> set ?el" and y: "y \<in> set ?el"
      and xy: "(?idx (fst x), ?idx (snd x)) = (?idx (fst y), ?idx (snd y))"
    from e_in[OF x] e_in[OF y] xy have "fst x = fst y" "snd x = snd y"
      by (auto intro: rank_inj[of _ ?keep])
    then show "x = y" by (simp add: prod_eq_iff)
  qed
  moreover have "distinct ?el" using sg by (simp add: simple_graph_def)
  ultimately have 2: "distinct (es ?s)" by (simp add: distinct_map)
  have "inj_on (\<lambda>v. vs_id gr ! v) (set ?keep)"
    using dist len by (auto simp: inj_on_def nth_eq_iff_index_eq)
  then have 3: "distinct (vs_id ?s)" by (simp add: distinct_map)
  have 4: "\<forall>i\<in>set (vs_id ?s). i < vcount G"
    using bnd len by auto
  have "working G ?s"
    unfolding working_def simple_graph_def using 1 2 3 4 by simp
  with eq show ?thesis by auto
qed

subsection \<open>Components\<close>

lemma graph_components_member:
  assumes "c \<in> set (graph_components gr)"
  shows "\<exists>r<vcount gr. (\<forall>w<r. graph_membership gr ! w \<noteq> graph_membership gr ! r)
           \<and> c = filter (\<lambda>v. graph_membership gr ! v = graph_membership gr ! r) [0..<vcount gr]"
  using assms by (auto simp: graph_components_def Let_def list_all_iff)

lemma graph_components_props:
  assumes "c \<in> set (graph_components gr)"
  shows "distinct c" and "c \<noteq> []" and "\<forall>v\<in>set c. v < vcount gr"
proof -
  from graph_components_member[OF assms] obtain r where r: "r < vcount gr"
    and c: "c = filter (\<lambda>v. graph_membership gr ! v = graph_membership gr ! r) [0..<vcount gr]"
    by blast
  show "distinct c" unfolding c by simp
  have "r \<in> set c" unfolding c using r by simp
  then show "c \<noteq> []" by auto
  show "\<forall>v\<in>set c. v < vcount gr" unfolding c by simp
qed

lemma graph_components_disjoint:
  assumes "c \<in> set (graph_components gr)" and "d \<in> set (graph_components gr)" and "c \<noteq> d"
  shows "set c \<inter> set d = {}"
proof -
  let ?m = "graph_membership gr"
  from graph_components_member[OF assms(1)] obtain r where r: "r < vcount gr"
    and c: "c = filter (\<lambda>v. ?m ! v = ?m ! r) [0..<vcount gr]" by blast
  from graph_components_member[OF assms(2)] obtain q where q: "q < vcount gr"
    and d: "d = filter (\<lambda>v. ?m ! v = ?m ! q) [0..<vcount gr]" by blast
  have "?m ! r \<noteq> ?m ! q" using assms(3) c d by auto
  then show ?thesis unfolding c d by auto
qed

lemma graph_components_distinct: "distinct (graph_components gr)"
proof -
  let ?m = "graph_membership gr"
  let ?roots = "filter (\<lambda>r. list_all (\<lambda>w. ?m ! w \<noteq> ?m ! r) [0..<r]) [0..<vcount gr]"
  have "inj_on (\<lambda>r. filter (\<lambda>v. ?m ! v = ?m ! r) [0..<vcount gr]) (set ?roots)"
  proof (rule inj_onI)
    fix r q assume r: "r \<in> set ?roots" and q: "q \<in> set ?roots"
      and eq: "filter (\<lambda>v. ?m ! v = ?m ! r) [0..<vcount gr] = filter (\<lambda>v. ?m ! v = ?m ! q) [0..<vcount gr]"
    have "r \<in> set (filter (\<lambda>v. ?m ! v = ?m ! r) [0..<vcount gr])" using r by simp
    with eq have "r \<in> set (filter (\<lambda>v. ?m ! v = ?m ! q) [0..<vcount gr])" by simp
    then have same: "?m ! r = ?m ! q" by simp
    show "r = q"
    proof (rule ccontr)
      assume "r \<noteq> q"
      then consider "r < q" | "q < r" by linarith
      then show False
        using r q same by cases (auto simp: list_all_iff)
    qed
  qed
  then show ?thesis by (simp add: graph_components_def Let_def distinct_map)
qed

lemma graph_components_concat_distinct: "distinct (concat (graph_components gr))"
  by (rule distinct_concat)
    (auto simp: graph_components_distinct graph_components_props(1)
      dest: graph_components_disjoint)

lemma distinct_concat_filter:
  "distinct (concat xs) \<Longrightarrow> distinct (concat (filter P xs))"
  by (induction xs) auto

subsection \<open>The predicates and the pruning do not fail\<close>

lemma strong_loop_total:
  "\<forall>i\<in>set idx. i < length cd \<and> i < length d \<Longrightarrow> \<exists>b. strong_loop cd d idx = Inr b"
  by (induction idx) (auto simp: get_def ebind_def)

lemma kept_length:
  assumes "\<forall>v\<in>set nodes. v < n" and "distinct nodes"
  shows "length (filter (\<lambda>v. v \<in> set nodes) [0..<n]) = length nodes"
proof -
  have "set (filter (\<lambda>v. v \<in> set nodes) [0..<n]) = set nodes" using assms(1) by auto
  moreover have "distinct (filter (\<lambda>v. v \<in> set nodes) [0..<n])" by simp
  ultimately show ?thesis using assms(2) by (metis distinct_card)
qed

lemma is_community_total:
  assumes "\<forall>v\<in>set nodes. v < vcount G" and "distinct nodes"
  shows "\<exists>b. is_community m G nodes = Inr b"
proof (cases "m = ''strong''")
  case True
  let ?keep = "filter (\<lambda>v. v \<in> set nodes) [0..<vcount G]"
  obtain sub where sub: "graph_subgraph G nodes = Inr sub" and vc: "vcount sub = length ?keep"
    using assms(1) by (auto simp: graph_subgraph_def list_all_iff Let_def)
  have d: "graph_degree_of G nodes = Inr (map (degree_at G) nodes)"
    using assms(1) by (simp add: graph_degree_of_def list_all_iff)
  have "length (graph_degree sub) = length nodes"
    using vc kept_length[OF assms] by (simp add: graph_degree_def)
  then have "\<exists>b. strong_loop (graph_degree sub) (map (degree_at G) nodes) [0..<length nodes] = Inr b"
    by (intro strong_loop_total) simp
  with True sub d show ?thesis
    by (simp add: is_community_def is_strong_community_def ebind_def)
next
  case False
  then show ?thesis
    using assms(1)
    by (simp add: is_community_def is_weak_community_def ebind_def graph_subgraph_def
        graph_degree_of_def list_all_iff Let_def)
qed

lemma map_err_eq_map:
  "(\<And>x. x \<in> set xs \<Longrightarrow> f x = Inr (h x)) \<Longrightarrow> map_err f xs = Inr (map h xs)"
  by (induction xs) (auto simp: ebind_def)

lemma working_ids:
  assumes "working G gr" and "\<forall>v\<in>set c. v < vcount gr" and "distinct c"
  shows "map_err (get (vs_id gr)) c = Inr (map (\<lambda>v. vs_id gr ! v) c)"
    and "distinct (map (\<lambda>v. vs_id gr ! v) c)"
    and "\<forall>i\<in>set (map (\<lambda>v. vs_id gr ! v) c). i < vcount G"
proof -
  from assms(1) have len: "length (vs_id gr) = vcount gr" and dist: "distinct (vs_id gr)"
    and bnd: "\<forall>i\<in>set (vs_id gr). i < vcount G"
    by (simp_all add: working_def)
  show "map_err (get (vs_id gr)) c = Inr (map (\<lambda>v. vs_id gr ! v) c)"
    using assms(2) len by (intro map_err_eq_map) (simp add: get_def)
  have "inj_on (\<lambda>v. vs_id gr ! v) (set c)"
    using dist len assms(2) by (auto simp: inj_on_def nth_eq_iff_index_eq)
  with assms(3) show "distinct (map (\<lambda>v. vs_id gr ! v) c)" by (simp add: distinct_map)
  show "\<forall>i\<in>set (map (\<lambda>v. vs_id gr ! v) c). i < vcount G"
    using bnd len assms(2) by auto
qed

lemma prune_components_total:
  assumes "working G gr"
  shows "\<exists>r. prune_components io G gr m = Inr r"
proof -
  let ?cs = "graph_components gr"
  let ?ocs = "map (map (\<lambda>v. vs_id gr ! v)) ?cs"
  have 1: "map_err (\<lambda>component. map_err (get (vs_id gr)) component) ?cs = Inr ?ocs"
    by (intro map_err_eq_map working_ids(1)[OF assms])
       (auto dest: graph_components_props)
  have "\<exists>flags. map_err (is_community m G) ?ocs = Inr flags"
  proof (rule map_err_total)
    fix oc assume "oc \<in> set ?ocs"
    then obtain c where c: "c \<in> set ?cs" and oc: "oc = map (\<lambda>v. vs_id gr ! v) c" by auto
    have "\<forall>v\<in>set c. v < vcount gr" "distinct c"
      using graph_components_props[OF c] by simp_all
    from working_ids(2,3)[OF assms this] show "\<exists>y. is_community m G oc = Inr y"
      unfolding oc by (intro is_community_total) simp_all
  qed
  then obtain flags where 2: "map_err (is_community m G) ?ocs = Inr flags" by blast
  show ?thesis
    unfolding prune_components_def Let_def 1 using 2 by (simp add: ebind_def)
qed

subsection \<open>Unfolding the loop\<close>

declare radicchi_internal.simps [simp del] radicchi_while.simps [simp del]

lemma radicchi_while_empty:
  "edges st = [] \<Longrightarrow> radicchi_while io G level m f st = Inr []"
  by (subst radicchi_while.simps) simp

lemma radicchi_while_same_count:
  assumes "edges st \<noteq> []" and "remove_weakest io f st = Inr st'"
    and "\<not> n_components st' < length (graph_components (g st'))"
  shows "radicchi_while io G level m f st = radicchi_while io G level m f st'"
  using assms by (subst radicchi_while.simps) (simp add: ebind_def Let_def)

lemma radicchi_while_pruned:
  assumes "edges st \<noteq> []" and "remove_weakest io f st = Inr st'"
    and "n_components st' < length (graph_components (g st'))"
    and "prune_components io G (g st') m = Inr r" and "pruned r"
    and "orig_communities r = Some oc" and "new_communities r = Some nc"
    and "remaining r = Some rem"
    and "\<And>i c. (i, c) \<in> set (enumerate 0 nc) \<Longrightarrow>
           graph_subgraph (g st') c = Inr (S c)
           \<and> radicchi_internal io G (S c) (level + 1) m 3 = Inr (sub c) \<and> i < length oc"
    and "map_err (get (vs_id (g st'))) rem = Inr orem"
    and "graph_subgraph (g st') rem = Inr R"
    and "radicchi_internal io G R (level + 1) m 3 = Inr subR"
  shows "radicchi_while io G level m f st =
           Inr (concat (map (\<lambda>ic. if sub (snd ic) = [] then [oc ! fst ic] else sub (snd ic))
                          (enumerate 0 nc))
                @ map (\<lambda>i. [i]) (filter (\<lambda>i. i \<notin> set (concat subR)) orem))"
proof -
  have parts: "map_err (\<lambda>ic.
           ebind (graph_subgraph (g st') (snd ic)) (\<lambda>s.
           ebind (radicchi_internal io G s (level + 1) m 3) (\<lambda>subcommunities.
             if length subcommunities = 0
             then ebind (get oc (fst ic)) (\<lambda>c. Inr [c])
             else Inr subcommunities)))
         (enumerate 0 nc)
       = Inr (map (\<lambda>ic. if sub (snd ic) = [] then [oc ! fst ic] else sub (snd ic))
                (enumerate 0 nc))"
  proof (rule map_err_eq_map)
    fix ic assume "ic \<in> set (enumerate 0 nc)"
    then have "(fst ic, snd ic) \<in> set (enumerate 0 nc)" by simp
    from assms(9)[OF this] show "ebind (graph_subgraph (g st') (snd ic)) (\<lambda>s.
           ebind (radicchi_internal io G s (level + 1) m 3) (\<lambda>subcommunities.
             if length subcommunities = 0
             then ebind (get oc (fst ic)) (\<lambda>c. Inr [c])
             else Inr subcommunities))
        = Inr (if sub (snd ic) = [] then [oc ! fst ic] else sub (snd ic))"
      by (simp add: ebind_def get_def)
  qed
  have c1: "(length (edges st) = 0) = False" using assms(1) by simp
  have c3: "(n_components st' < length (graph_components (g st'))) = True"
    using assms(3) by simp
  have c5: "pruned r = True" using assms(5) by simp
  have gs: "\<And>k. g (st'\<lparr>n_components := k\<rparr>) = g st'" by simp
  have ebind_Inr: "\<And>x h. ebind (Inr x) h = h x" by (simp add: ebind_def)
  show ?thesis
    by (subst radicchi_while.simps)
       (simp only: Let_def c1 c3 c5 gs if_True if_False ebind_Inr prod.case option.case
          assms(2,4,6,7,8,10,11,12) parts)
qed

subsection \<open>Assembling the communities\<close>

lemma good_in_Nil [simp]: "good_in A []"
  by (simp add: good_in_def)

lemma same_groups_refl [simp]: "same_groups r r"
  by (simp add: same_groups_def)

lemma good_in_mono: "good_in A res \<Longrightarrow> A \<subseteq> B \<Longrightarrow> good_in B res"
  by (auto simp: good_in_def)

lemma distinct_concat_map:
  assumes "distinct cs" and "\<forall>c\<in>set cs. distinct (F c)"
    and "\<forall>c\<in>set cs. \<forall>d\<in>set cs. c \<noteq> d \<longrightarrow> set (F c) \<inter> set (F d) = {}"
  shows "distinct (concat (map F cs))"
  using assms
proof (induction cs)
  case Nil
  then show ?case by simp
next
  case (Cons c cs)
  then have "distinct (concat (map F cs))" by simp
  moreover have "distinct (F c)" using Cons.prems by simp
  moreover have "set (F c) \<inter> (\<Union>d\<in>set cs. set (F d)) = {}"
    using Cons.prems by fastforce
  ultimately show ?case by simp
qed

lemma concat_concat_map: "concat (concat (map P cs)) = concat (map (\<lambda>c. concat (P c)) cs)"
  by (induction cs) auto

lemma concat_singletons: "concat (map (\<lambda>i. [i]) xs) = xs"
  by (induction xs) auto

lemma assemble_good:
  assumes "distinct cs"
    and "\<forall>c\<in>set cs. \<forall>d\<in>set cs. c \<noteq> d \<longrightarrow> A c \<inter> A d = {}"
    and "\<forall>c\<in>set cs. good_in (A c) (P c)"
    and "distinct isol" and "\<forall>c\<in>set cs. set isol \<inter> A c = {}"
    and "(\<Union>c\<in>set cs. A c) \<union> set isol \<subseteq> B"
  shows "good_in B (concat (map P cs) @ map (\<lambda>i. [i]) isol)"
proof -
  have sub: "\<And>c. c \<in> set cs \<Longrightarrow> set (concat (P c)) \<subseteq> A c"
    using assms(3) by (simp add: good_in_def)
  have d: "distinct (concat (map (\<lambda>c. concat (P c)) cs))"
  proof (rule distinct_concat_map[OF assms(1)])
    show "\<forall>c\<in>set cs. distinct (concat (P c))" using assms(3) by (simp add: good_in_def)
    show "\<forall>c\<in>set cs. \<forall>d\<in>set cs. c \<noteq> d \<longrightarrow> set (concat (P c)) \<inter> set (concat (P d)) = {}"
    proof (intro ballI impI)
      fix c d assume c: "c \<in> set cs" and d: "d \<in> set cs" and "c \<noteq> d"
      with assms(2) have "A c \<inter> A d = {}" by blast
      with sub[OF c] sub[OF d] show "set (concat (P c)) \<inter> set (concat (P d)) = {}" by blast
    qed
  qed
  have s: "set (concat (map (\<lambda>c. concat (P c)) cs)) \<subseteq> (\<Union>c\<in>set cs. A c)"
    using sub by fastforce
  have flat: "concat (concat (map P cs) @ map (\<lambda>i. [i]) isol)
               = concat (map (\<lambda>c. concat (P c)) cs) @ isol"
    by (simp add: concat_concat_map concat_singletons)
  have 1: "set (concat (concat (map P cs) @ map (\<lambda>i. [i]) isol)) \<subseteq> B"
    unfolding flat using s assms(6) by auto
  have "(\<Union>c\<in>set cs. A c) \<inter> set isol = {}" using assms(5) by blast
  with s have "set (concat (map (\<lambda>c. concat (P c)) cs)) \<inter> set isol = {}" by blast
  then have 2: "distinct (concat (concat (map P cs) @ map (\<lambda>i. [i]) isol))"
    unfolding flat using d assms(4) by simp
  have "\<And>c. c \<in> set cs \<Longrightarrow> [] \<notin> set (P c)" using assms(3) by (simp add: good_in_def)
  then have 3: "[] \<notin> set (concat (map P cs) @ map (\<lambda>i. [i]) isol)"
    by auto
  from 1 2 3 show ?thesis unfolding good_in_def by blast
qed

lemma mset_concat_map:
  "\<forall>c\<in>set cs. mset (P1 c) = mset (P2 c) \<Longrightarrow> mset (concat (map P1 cs)) = mset (concat (map P2 cs))"
  by (induction cs) auto

lemma assemble_same:
  assumes "cs \<noteq> []" and "\<forall>c\<in>set cs. same_groups (P1 c) (P2 c) \<and> P1 c \<noteq> []"
    and "mset isol1 = mset isol2"
  shows "same_groups (concat (map P1 cs) @ map (\<lambda>i. [i]) isol1)
           (concat (map P2 cs) @ map (\<lambda>i. [i]) isol2)"
proof -
  from assms(1) obtain c0 rest where cs: "cs = c0 # rest" by (cases cs) auto
  have m: "mset (concat (map P1 cs)) = mset (concat (map P2 cs))"
    using assms(2) by (intro mset_concat_map) (simp add: same_groups_def)
  have c0: "same_groups (P1 c0) (P2 c0)" "P1 c0 \<noteq> []" using assms(2) cs by simp_all
  then have "P2 c0 \<noteq> []" by (auto simp: same_groups_def)
  with c0 have h: "hd (concat (map P1 cs) @ map (\<lambda>i. [i]) isol1)
                 = hd (concat (map P2 cs) @ map (\<lambda>i. [i]) isol2)"
    unfolding cs by (simp add: same_groups_def)
  from m h assms(3) show ?thesis by (simp add: same_groups_def)
qed

lemma part_same:
  assumes "same_groups s1 s2"
  shows "same_groups (if s1 = [] then [x] else s1) (if s2 = [] then [x] else s2)
         \<and> (if s1 = [] then [x] else s1) \<noteq> []"
proof -
  from assms have "s1 = [] \<longleftrightarrow> s2 = []" by (auto simp: same_groups_def)
  with assms show ?thesis by (auto simp: same_groups_def)
qed

lemma part_good:
  assumes "good_in A s" and "set x \<subseteq> A" and "distinct x" and "x \<noteq> []"
  shows "good_in A (if s = [] then [x] else s)"
  using assms by (auto simp: good_in_def)

lemma same_groups_flat: "same_groups r1 r2 \<Longrightarrow> set (concat r1) = set (concat r2)"
proof -
  assume "same_groups r1 r2"
  then have "set r1 = set r2" by (auto simp: same_groups_def dest: mset_eq_setD)
  then show ?thesis by simp
qed

subsection \<open>The splitter returns, with disjoint groups, whatever the iteration order\<close>

lemma enumerate_parts:
  "map (\<lambda>ic. F (map h' cs ! fst ic) (snd ic)) (enumerate 0 cs) = map (\<lambda>c. F (h' c) c) cs"
  by (rule nth_equalityI) (simp_all add: nth_enumerate_eq)

lemma consistent_n_components [simp]:
  "consistent (st\<lparr>n_components := k\<rparr>) = consistent st"
  by (simp add: consistent_def)

lemma working_delete:
  assumes "working G gr"
  shows "working G (gr\<lparr>es := filter P (es gr)\<rparr>)"
  using assms by (auto simp: working_def simple_graph_def list_all_iff)

lemma iterate_vertices_mset [simp]: "mset (iterate_vertices io xs) = mset xs"
  by (simp add: iterate_vertices_def)

lemma confirmed_props:
  assumes "c \<in> set (confirmed G gr m)"
  shows "distinct c" and "c \<noteq> []" and "\<forall>v\<in>set c. v < vcount gr"
    and "set c \<subseteq> set (concat (confirmed G gr m))"
  using assms graph_components_props[of c gr] by (auto simp: confirmed_def)

lemma confirmed_disjoint:
  assumes "c \<in> set (confirmed G gr m)" and "d \<in> set (confirmed G gr m)" and "c \<noteq> d"
  shows "set c \<inter> set d = {}"
  using assms graph_components_disjoint[of c gr d] by (simp add: confirmed_def)

lemma confirmed_distinct: "distinct (confirmed G gr m)"
  by (simp add: confirmed_def graph_components_distinct)

lemma working_inj:
  assumes "working G gr"
  shows "inj_on (\<lambda>v. vs_id gr ! v) {..<vcount gr}"
  using assms by (auto simp: working_def inj_on_def nth_eq_iff_index_eq)

lemma working_range:
  assumes "working G gr" and "v < vcount gr"
  shows "vs_id gr ! v \<in> set (vs_id gr)"
  using assms by (simp add: working_def)

lemma radicchi_while_main:
  assumes "consistent st" and "working G (g st)" and "is_scorer f"
  shows "\<exists>r1 r2. radicchi_while io1 G level m f st = Inr r1
           \<and> radicchi_while io2 G level m f st = Inr r2
           \<and> good_in (set (vs_id (g st))) r1 \<and> good_in (set (vs_id (g st))) r2
           \<and> same_groups r1 r2"
  using assms
proof (induction "length (es (g st))" arbitrary: st level f rule: less_induct)
  case less
  note cons = less.prems(1) and wk = less.prems(2) and sc = less.prems(3)
  show ?case
  proof (cases "edges st = []")
    case True
    then show ?thesis by (simp add: radicchi_while_empty)
  next
    case False
    from remove_weakest_consistent[OF cons False sc, of io1] obtain st' mn where
      rw1: "remove_weakest io1 f st = Inr st'"
      and g': "g st' = (g st)\<lparr>es := filter (\<lambda>e. score_of f st e \<noteq> Inr mn) (es (g st))\<rparr>"
      and cons': "consistent st'"
      by blast
    have rw2: "remove_weakest io2 f st = Inr st'"
      using rw1 remove_weakest_order[OF cons False sc, of io1 io2] by simp
    have lt: "length (es (g st')) < length (es (g st))"
      using rw1 False by (rule remove_weakest_less)
    have wk': "working G (g st')" unfolding g' by (rule working_delete[OF wk])
    have ids: "vs_id (g st') = vs_id (g st)" unfolding g' by simp
    have rec: "\<exists>a1 a2. radicchi_internal io1 G s (level + 1) m 3 = Inr a1
                 \<and> radicchi_internal io2 G s (level + 1) m 3 = Inr a2
                 \<and> good_in (set (vs_id s)) a1 \<and> good_in (set (vs_id s)) a2 \<and> same_groups a1 a2"
      if s: "working G s" "length (es s) \<le> length (es (g st'))" for s
    proof -
      have 1: "length (es (g (init_state s))) < length (es (g st))"
        using s(2) lt by (simp add: init_state_def)
      have 2: "consistent (init_state s)"
        using s(1) by (intro consistent_init_state) (simp add: working_def)
      have 3: "working G (g (init_state s))" using s(1) by (simp add: init_state_def)
      have 4: "is_scorer edge_clustering_coefficient_3" by (simp add: is_scorer_def)
      from less.hyps[OF 1 2 3 4, of "level + 1"] show ?thesis
        by (simp add: radicchi_internal.simps init_state_def)
    qed
    show ?thesis
    proof (cases "n_components st' < length (graph_components (g st'))")
      case False
      have "radicchi_while io1 G level m f st = radicchi_while io1 G level m f st'"
        and "radicchi_while io2 G level m f st = radicchi_while io2 G level m f st'"
        using \<open>edges st \<noteq> []\<close> rw1 rw2 False by (auto intro: radicchi_while_same_count)
      with less.hyps[OF lt cons' wk' sc, of level] ids show ?thesis by simp
    next
      case grew: True
      let ?g = "g st'"
      let ?n = "vcount ?g"
      let ?cs = "confirmed G ?g m"
      let ?h = "\<lambda>v. vs_id ?g ! v"
      let ?base = "filter (\<lambda>v. v \<notin> set (concat ?cs)) [0..<?n]"
      from prune_components_total[OF wk', of io1 m] obtain p1 where
        p1: "prune_components io1 G ?g m = Inr p1" by blast
      from prune_components_total[OF wk', of io2 m] obtain p2 where
        p2: "prune_components io2 G ?g m = Inr p2" by blast
      note f1 = prune_components_result[OF p1] and f2 = prune_components_result[OF p2]
      show ?thesis
      proof (cases "2 \<le> length ?cs")
        case False
        let ?st = "st'\<lparr>n_components := length (graph_components ?g)\<rparr>"
        have np: "\<not> pruned p1" "\<not> pruned p2" using f1 f2 False by simp_all
        have "radicchi_while io1 G level m f st = radicchi_while io1 G level m f ?st"
          using \<open>edges st \<noteq> []\<close> rw1 grew p1 np(1) by (rule radicchi_while_continue)
        moreover have "radicchi_while io2 G level m f st = radicchi_while io2 G level m f ?st"
          using \<open>edges st \<noteq> []\<close> rw2 grew p2 np(2) by (rule radicchi_while_continue)
        moreover have "length (es (g ?st)) < length (es (g st))" using lt by simp
        moreover have "consistent ?st" using cons' by simp
        moreover have "working G (g ?st)" using wk' by simp
        ultimately show ?thesis
          using less.hyps[of ?st f level] sc ids by simp
      next
        case two: True
        define S where "S = (\<lambda>c. projr (graph_subgraph ?g c))"
        define sub1 where "sub1 = (\<lambda>c. projr (radicchi_internal io1 G (S c) (level + 1) m 3))"
        define sub2 where "sub2 = (\<lambda>c. projr (radicchi_internal io2 G (S c) (level + 1) m 3))"
        define R where "R = projr (graph_subgraph ?g ?base)"
        define subR1 where "subR1 = projr (radicchi_internal io1 G R (level + 1) m 3)"
        define subR2 where "subR2 = projr (radicchi_internal io2 G R (level + 1) m 3)"
        let ?rem1 = "iterate_vertices io1 ?base"
        let ?rem2 = "iterate_vertices io2 ?base"
        have inj: "inj_on ?h {..<?n}" by (rule working_inj[OF wk'])
        have Sfacts: "graph_subgraph ?g c = Inr (S c) \<and> working G (S c)
                        \<and> set (vs_id (S c)) = ?h ` set c
                        \<and> length (es (S c)) \<le> length (es ?g)"
          if c: "\<forall>v\<in>set c. v < ?n" for c
        proof -
          from graph_subgraph_working[OF wk' c] obtain s where
            s: "graph_subgraph ?g c = Inr s" "working G s"
               "vs_id s = map ?h (filter (\<lambda>v. v \<in> set c) [0..<?n])"
            by blast
          have "set (filter (\<lambda>v. v \<in> set c) [0..<?n]) = set c" using c by auto
          then have "set (vs_id s) = ?h ` set c" unfolding s(3) by simp
          moreover have "length (es s) \<le> length (es ?g)"
            using s(1) by (rule graph_subgraph_edges_le)
          moreover have "S c = s" unfolding S_def s(1) by simp
          ultimately show ?thesis using s by simp
        qed
        have cfacts: "radicchi_internal io1 G (S c) (level + 1) m 3 = Inr (sub1 c)
                    \<and> radicchi_internal io2 G (S c) (level + 1) m 3 = Inr (sub2 c)
                    \<and> good_in (?h ` set c) (sub1 c) \<and> good_in (?h ` set c) (sub2 c)
                    \<and> same_groups (sub1 c) (sub2 c)"
          if c: "\<forall>v\<in>set c. v < ?n" for c
        proof -
          note sf = Sfacts[OF c]
          from rec[of "S c"] sf obtain a1 a2 where
            a: "radicchi_internal io1 G (S c) (level + 1) m 3 = Inr a1"
               "radicchi_internal io2 G (S c) (level + 1) m 3 = Inr a2"
               "good_in (set (vs_id (S c))) a1" "good_in (set (vs_id (S c))) a2"
               "same_groups a1 a2"
            by blast
          have "sub1 c = a1" "sub2 c = a2" unfolding sub1_def sub2_def a by simp_all
          with a sf show ?thesis by simp
        qed
        have base_lt: "\<forall>v\<in>set ?base. v < ?n" by simp
        have Rfacts: "graph_subgraph ?g ?base = Inr R" "set (vs_id R) = ?h ` set ?base"
          using Sfacts[OF base_lt] unfolding S_def R_def by simp_all
        have Rrec: "radicchi_internal io1 G R (level + 1) m 3 = Inr subR1"
                   "radicchi_internal io2 G R (level + 1) m 3 = Inr subR2"
                   "same_groups subR1 subR2"
          using cfacts[OF base_lt] unfolding S_def sub1_def sub2_def R_def subR1_def subR2_def
          by simp_all
        have cs_lt: "\<forall>v\<in>set c. v < ?n" if "c \<in> set ?cs" for c
          using confirmed_props(3)[OF that] .
        let ?P1 = "\<lambda>c. if sub1 c = [] then [map ?h c] else sub1 c"
        let ?P2 = "\<lambda>c. if sub2 c = [] then [map ?h c] else sub2 c"
        let ?iso1 = "filter (\<lambda>i. i \<notin> set (concat subR1)) (map ?h ?rem1)"
        let ?iso2 = "filter (\<lambda>i. i \<notin> set (concat subR2)) (map ?h ?rem2)"
        have res1: "radicchi_while io1 G level m f st
                      = Inr (concat (map ?P1 ?cs) @ map (\<lambda>i. [i]) ?iso1)"
        proof -
          have "radicchi_while io1 G level m f st =
             Inr (concat (map (\<lambda>ic. if sub1 (snd ic) = [] then [map (map ?h) ?cs ! fst ic]
                                      else sub1 (snd ic)) (enumerate 0 ?cs))
                  @ map (\<lambda>i. [i]) (filter (\<lambda>i. i \<notin> set (concat subR1)) (map ?h ?rem1)))"
          proof (rule radicchi_while_pruned[OF \<open>edges st \<noteq> []\<close> rw1 grew p1, where S = S])
            show "pruned p1" "orig_communities p1 = Some (map (map ?h) ?cs)"
              "new_communities p1 = Some ?cs" "remaining p1 = Some ?rem1"
              using f1 two by simp_all
            show "graph_subgraph ?g ?rem1 = Inr R"
              using Rfacts(1) graph_subgraph_set[of ?rem1 ?base ?g] by simp
            show "radicchi_internal io1 G R (level + 1) m 3 = Inr subR1" by (rule Rrec(1))
            show "map_err (get (vs_id ?g)) ?rem1 = Inr (map ?h ?rem1)"
              by (rule working_ids(1)[OF wk']) simp_all
          next
            fix i c assume "(i, c) \<in> set (enumerate 0 ?cs)"
            then have i: "i < length ?cs" and c: "c \<in> set ?cs"
              by (auto simp: in_set_enumerate_eq)
            from cfacts[OF cs_lt[OF c]] Sfacts[OF cs_lt[OF c]] i
            show "graph_subgraph ?g c = Inr (S c)
                  \<and> radicchi_internal io1 G (S c) (level + 1) m 3 = Inr (sub1 c)
                  \<and> i < length (map (map ?h) ?cs)"
              by simp
          qed
          then show ?thesis
            using enumerate_parts[of "\<lambda>x c. if sub1 c = [] then [x] else sub1 c" "map ?h" ?cs]
            by simp
        qed
        have res2: "radicchi_while io2 G level m f st
                      = Inr (concat (map ?P2 ?cs) @ map (\<lambda>i. [i]) ?iso2)"
        proof -
          have "radicchi_while io2 G level m f st =
             Inr (concat (map (\<lambda>ic. if sub2 (snd ic) = [] then [map (map ?h) ?cs ! fst ic]
                                      else sub2 (snd ic)) (enumerate 0 ?cs))
                  @ map (\<lambda>i. [i]) (filter (\<lambda>i. i \<notin> set (concat subR2)) (map ?h ?rem2)))"
          proof (rule radicchi_while_pruned[OF \<open>edges st \<noteq> []\<close> rw2 grew p2, where S = S])
            show "pruned p2" "orig_communities p2 = Some (map (map ?h) ?cs)"
              "new_communities p2 = Some ?cs" "remaining p2 = Some ?rem2"
              using f2 two by simp_all
            show "graph_subgraph ?g ?rem2 = Inr R"
              using Rfacts(1) graph_subgraph_set[of ?rem2 ?base ?g] by simp
            show "radicchi_internal io2 G R (level + 1) m 3 = Inr subR2" by (rule Rrec(2))
            show "map_err (get (vs_id ?g)) ?rem2 = Inr (map ?h ?rem2)"
              by (rule working_ids(1)[OF wk']) simp_all
          next
            fix i c assume "(i, c) \<in> set (enumerate 0 ?cs)"
            then have i: "i < length ?cs" and c: "c \<in> set ?cs"
              by (auto simp: in_set_enumerate_eq)
            from cfacts[OF cs_lt[OF c]] Sfacts[OF cs_lt[OF c]] i
            show "graph_subgraph ?g c = Inr (S c)
                  \<and> radicchi_internal io2 G (S c) (level + 1) m 3 = Inr (sub2 c)
                  \<and> i < length (map (map ?h) ?cs)"
              by simp
          qed
          then show ?thesis
            using enumerate_parts[of "\<lambda>x c. if sub2 c = [] then [x] else sub2 c" "map ?h" ?cs]
            by simp
        qed
        have disj: "\<forall>c\<in>set ?cs. \<forall>d\<in>set ?cs. c \<noteq> d \<longrightarrow> ?h ` set c \<inter> ?h ` set d = {}"
        proof (intro ballI impI)
          fix c d assume c: "c \<in> set ?cs" and d: "d \<in> set ?cs" and "c \<noteq> d"
          then have "set c \<inter> set d = {}" by (rule confirmed_disjoint)
          moreover have "set c \<subseteq> {..<?n}" "set d \<subseteq> {..<?n}"
            using cs_lt[OF c] cs_lt[OF d] by auto
          ultimately show "?h ` set c \<inter> ?h ` set d = {}"
            using inj by (metis inj_on_image_Int image_empty)
        qed
        have partg: "good_in (?h ` set c) (?P1 c) \<and> good_in (?h ` set c) (?P2 c)
                     \<and> same_groups (?P1 c) (?P2 c) \<and> ?P1 c \<noteq> []"
          if c: "c \<in> set ?cs" for c
        proof -
          note cf = cfacts[OF cs_lt[OF c]]
          have d: "distinct (map ?h c)"
            using working_ids(2)[OF wk' cs_lt[OF c] confirmed_props(1)[OF c]] .
          have ne: "map ?h c \<noteq> []" using confirmed_props(2)[OF c] by simp
          have "good_in (?h ` set c) (?P1 c)"
            by (rule part_good) (use cf d ne in simp_all)
          moreover have "good_in (?h ` set c) (?P2 c)"
            by (rule part_good) (use cf d ne in simp_all)
          moreover have "same_groups (?P1 c) (?P2 c) \<and> ?P1 c \<noteq> []"
            using part_same[of "sub1 c" "sub2 c" "map ?h c"] cf by blast
          ultimately show ?thesis by blast
        qed
        have iso_d: "distinct ?iso1" "distinct ?iso2"
          using working_ids(2)[OF wk', of ?rem1] working_ids(2)[OF wk', of ?rem2]
          by simp_all
        have iso_sub: "set ?iso1 \<subseteq> ?h ` set ?base" "set ?iso2 \<subseteq> ?h ` set ?base"
          by auto
        have iso_disj: "?h ` set ?base \<inter> ?h ` set c = {}" if c: "c \<in> set ?cs" for c
        proof -
          have "set ?base \<inter> set c = {}" using confirmed_props(4)[OF c] by auto
          moreover have "set ?base \<subseteq> {..<?n}" "set c \<subseteq> {..<?n}"
            using cs_lt[OF c] by auto
          ultimately show ?thesis using inj by (metis inj_on_image_Int image_empty)
        qed
        have inB: "?h ` A \<subseteq> set (vs_id (g st))" if "A \<subseteq> {..<?n}" for A
        proof
          fix x assume "x \<in> ?h ` A"
          then obtain v where v: "v \<in> A" "x = ?h v" by blast
          with that have "v < ?n" by auto
          from working_range[OF wk' this] v ids show "x \<in> set (vs_id (g st))" by simp
        qed
        have base_sub: "set ?base \<subseteq> {..<?n}" using base_lt by blast
        have hbase: "?h ` set ?base \<subseteq> set (vs_id (g st))" by (rule inB[OF base_sub])
        have hcs: "?h ` set c \<subseteq> set (vs_id (g st))" if "c \<in> set ?cs" for c
        proof (rule inB)
          show "set c \<subseteq> {..<?n}" using cs_lt[OF that] by blast
        qed
        have hall: "(\<Union>c\<in>set ?cs. ?h ` set c) \<subseteq> set (vs_id (g st))"
          by (rule UN_least) (rule hcs)
        have cover1: "(\<Union>c\<in>set ?cs. ?h ` set c) \<union> set ?iso1 \<subseteq> set (vs_id (g st))"
          by (rule Un_least[OF hall order_trans[OF iso_sub(1) hbase]])
        have cover2: "(\<Union>c\<in>set ?cs. ?h ` set c) \<union> set ?iso2 \<subseteq> set (vs_id (g st))"
          by (rule Un_least[OF hall order_trans[OF iso_sub(2) hbase]])
        have good1: "good_in (set (vs_id (g st))) (concat (map ?P1 ?cs) @ map (\<lambda>i. [i]) ?iso1)"
        proof (rule assemble_good[where A = "\<lambda>c. ?h ` set c"])
          show "distinct ?cs" by (rule confirmed_distinct)
          show "\<forall>c\<in>set ?cs. \<forall>d\<in>set ?cs. c \<noteq> d \<longrightarrow> ?h ` set c \<inter> ?h ` set d = {}" by (rule disj)
          show "\<forall>c\<in>set ?cs. good_in (?h ` set c) (?P1 c)" using partg by blast
          show "distinct ?iso1" by (rule iso_d)
          show "\<forall>c\<in>set ?cs. set ?iso1 \<inter> ?h ` set c = {}" using iso_sub(1) iso_disj by blast
          show "(\<Union>c\<in>set ?cs. ?h ` set c) \<union> set ?iso1 \<subseteq> set (vs_id (g st))" by (rule cover1)
        qed
        have good2: "good_in (set (vs_id (g st))) (concat (map ?P2 ?cs) @ map (\<lambda>i. [i]) ?iso2)"
        proof (rule assemble_good[where A = "\<lambda>c. ?h ` set c"])
          show "distinct ?cs" by (rule confirmed_distinct)
          show "\<forall>c\<in>set ?cs. \<forall>d\<in>set ?cs. c \<noteq> d \<longrightarrow> ?h ` set c \<inter> ?h ` set d = {}" by (rule disj)
          show "\<forall>c\<in>set ?cs. good_in (?h ` set c) (?P2 c)" using partg by blast
          show "distinct ?iso2" by (rule iso_d)
          show "\<forall>c\<in>set ?cs. set ?iso2 \<inter> ?h ` set c = {}" using iso_sub(2) iso_disj by blast
          show "(\<Union>c\<in>set ?cs. ?h ` set c) \<union> set ?iso2 \<subseteq> set (vs_id (g st))" by (rule cover2)
        qed
        have same: "same_groups (concat (map ?P1 ?cs) @ map (\<lambda>i. [i]) ?iso1)
                      (concat (map ?P2 ?cs) @ map (\<lambda>i. [i]) ?iso2)"
        proof (rule assemble_same)
          show "?cs \<noteq> []" using two by auto
          show "\<forall>c\<in>set ?cs. same_groups (?P1 c) (?P2 c) \<and> ?P1 c \<noteq> []" using partg by blast
          have "set (concat subR1) = set (concat subR2)"
            using Rrec(3) by (rule same_groups_flat)
          moreover have "mset (map ?h ?rem1) = mset (map ?h ?rem2)" by simp
          ultimately show "mset ?iso1 = mset ?iso2"
            by (metis mset_filter)
        qed
        from res1 res2 good1 good2 same show ?thesis by blast
      qed
    qed
  qed
qed

subsection \<open>Labelling and determinism\<close>

lemma label_group_result:
  assumes "\<forall>v\<in>set l. v < length cl"
  shows "\<exists>cl'. label_group i l cl = Inr cl' \<and> length cl' = length cl
           \<and> (\<forall>v<length cl. cl' ! v = (if v \<in> set l then i else cl ! v))"
  using assms
proof (induction l arbitrary: cl)
  case Nil
  then show ?case by simp
next
  case (Cons w l)
  have "\<forall>v\<in>set l. v < length (cl[w := i])" using Cons.prems by simp
  from Cons.IH[OF this] obtain cl' where
    r: "label_group i l (cl[w := i]) = Inr cl'" and len: "length cl' = length cl"
    and nth: "\<forall>v<length cl. cl' ! v = (if v \<in> set l then i else cl[w := i] ! v)"
    by auto
  have "label_group i (w # l) cl = Inr cl'" using Cons.prems r by simp
  moreover have "\<forall>v<length cl. cl' ! v = (if v \<in> set (w # l) then i else cl ! v)"
    using nth by (auto simp: nth_list_update)
  ultimately show ?case using len by blast
qed

lemma label_groups_result:
  assumes "\<forall>v\<in>set (concat res). v < length cl" and "distinct (concat res)"
  shows "\<exists>cl'. label_groups (enumerate k res) cl = Inr cl' \<and> length cl' = length cl
           \<and> (\<forall>v<length cl. v \<notin> set (concat res) \<longrightarrow> cl' ! v = cl ! v)
           \<and> (\<forall>i<length res. \<forall>v\<in>set (res ! i). cl' ! v = k + i)"
  using assms
proof (induction res arbitrary: k cl)
  case Nil
  then show ?case by simp
next
  case (Cons l res)
  have l: "\<forall>v\<in>set l. v < length cl" using Cons.prems(1) by simp
  from label_group_result[OF l, of k] obtain cl1 where
    g1: "label_group k l cl = Inr cl1" and len1: "length cl1 = length cl"
    and nth1: "\<forall>v<length cl. cl1 ! v = (if v \<in> set l then k else cl ! v)"
    by blast
  have p1: "\<forall>v\<in>set (concat res). v < length cl1" using Cons.prems(1) len1 by simp
  have p2: "distinct (concat res)" using Cons.prems(2) by simp
  from Cons.IH[OF p1 p2, of "Suc k"] obtain cl' where
    r: "label_groups (enumerate (Suc k) res) cl1 = Inr cl'" and len: "length cl' = length cl1"
    and out: "\<forall>v<length cl1. v \<notin> set (concat res) \<longrightarrow> cl' ! v = cl1 ! v"
    and inn: "\<forall>i<length res. \<forall>v\<in>set (res ! i). cl' ! v = Suc k + i"
    by blast
  have disj: "set l \<inter> set (concat res) = {}" using Cons.prems(2) by auto
  have 1: "label_groups (enumerate k (l # res)) cl = Inr cl'"
    using g1 r by (simp add: ebind_def)
  have 2: "\<forall>v<length cl. v \<notin> set (concat (l # res)) \<longrightarrow> cl' ! v = cl ! v"
    using out nth1 len1 by simp
  have 3: "\<forall>i<length (l # res). \<forall>v\<in>set ((l # res) ! i). cl' ! v = k + i"
  proof (intro allI impI ballI)
    fix i v assume i: "i < length (l # res)" and v: "v \<in> set ((l # res) ! i)"
    show "cl' ! v = k + i"
    proof (cases i)
      case 0
      with v have vl: "v \<in> set l" by simp
      with disj have "v \<notin> set (concat res)" by blast
      moreover have "v < length cl" using l vl by simp
      ultimately show ?thesis using out nth1 len1 vl 0 by simp
    next
      case (Suc j)
      with i v inn show ?thesis by simp
    qed
  qed
  from 1 2 3 len len1 show ?case by simp
qed

lemma working_copy:
  assumes "simple_graph G"
  shows "working G ((graph_copy G)\<lparr>vs_id := [0..<vcount (graph_copy G)]\<rparr>)"
  using assms by (simp add: working_def graph_copy_def simple_graph_def)

lemma radicchi_results:
  assumes "simple_graph G"
  shows "\<exists>r1 r2.
      radicchi_internal io1 G ((graph_copy G)\<lparr>vs_id := [0..<vcount (graph_copy G)]\<rparr>) 0 m c = Inr r1
    \<and> radicchi_internal io2 G ((graph_copy G)\<lparr>vs_id := [0..<vcount (graph_copy G)]\<rparr>) 0 m c = Inr r2
    \<and> good_in {..<vcount G} r1 \<and> good_in {..<vcount G} r2 \<and> same_groups r1 r2"
proof -
  let ?g = "(graph_copy G)\<lparr>vs_id := [0..<vcount (graph_copy G)]\<rparr>"
  let ?f = "if c = 3 then edge_clustering_coefficient_3 else edge_clustering_coefficient_4"
  have w: "working G (g (init_state ?g))"
    using working_copy[OF assms] by (simp add: init_state_def)
  have c: "consistent (init_state ?g)"
    using working_copy[OF assms] by (intro consistent_init_state) (simp add: working_def)
  have s: "is_scorer ?f" by (simp add: is_scorer_def)
  have ids: "set (vs_id (g (init_state ?g))) = {..<vcount G}"
    by (auto simp: init_state_def graph_copy_def)
  from radicchi_while_main[OF c w s, of io1 0 m io2] show ?thesis
    unfolding ids by (simp add: radicchi_internal.simps)
qed

lemma radicchi_labels:
  assumes "good_in {..<n} res"
  shows "\<exists>mb. label_groups (enumerate 0 res) (replicate n 0) = Inr mb \<and> length mb = n
           \<and> (\<forall>i<length res. \<forall>v\<in>set (res ! i). mb ! v = i)
           \<and> (\<forall>v<n. v \<notin> set (concat res) \<longrightarrow> mb ! v = 0)"
proof -
  have 1: "\<forall>v\<in>set (concat res). v < length (replicate n (0::nat))"
    using assms unfolding good_in_def by (simp add: subset_iff)
  have 2: "distinct (concat res)" using assms by (simp add: good_in_def)
  from label_groups_result[OF 1 2, of 0] show ?thesis by auto
qed

lemma same_groups_classes:
  assumes "same_groups r1 r2"
  shows "classes n r1 = classes n r2"
proof (cases "r1 = []")
  case True
  with assms have "r2 = []" by (simp add: same_groups_def)
  with True show ?thesis by simp
next
  case False
  with assms have ne2: "r2 \<noteq> []" and hd: "hd r1 = hd r2" and ms: "mset r1 = mset r2"
    by (auto simp: same_groups_def)
  have "mset (tl r1) + {#hd r1#} = mset (tl r2) + {#hd r2#}"
    using False ne2 ms by (metis add_mset_add_single hd_Cons_tl mset.simps(2))
  with hd have "mset (tl r1) = mset (tl r2)" by simp
  then have t: "set (tl r1) = set (tl r2)" by (rule mset_eq_setD)
  have "set (concat r1) = set (concat r2)" using assms by (rule same_groups_flat)
  with t hd False ne2 show ?thesis by (simp add: classes_def)
qed

lemma partition_classes:
  assumes good: "good_in {..<n} res" and len: "length mb = n"
    and inn: "\<forall>i<length res. \<forall>v\<in>set (res ! i). mb ! v = i"
    and out: "\<forall>v<n. v \<notin> set (concat res) \<longrightarrow> mb ! v = 0"
  shows "partition_of mb = classes n res"
proof (cases "res = []")
  case True
  show ?thesis
  proof (cases "n = 0")
    case True
    with len \<open>res = []\<close> show ?thesis by (simp add: partition_of_def classes_def)
  next
    case False
    have all0: "\<forall>v<n. mb ! v = 0" using out \<open>res = []\<close> by simp
    have "set mb = {0}"
    proof
      show "set mb \<subseteq> {0}" using all0 len by (auto simp: in_set_conv_nth)
      have "mb ! 0 \<in> set mb" using False len by simp
      with all0 False show "{0} \<subseteq> set mb" by simp
    qed
    moreover have "set (filter (\<lambda>v. mb ! v = 0) [0..<length mb]) = {..<n}"
      using all0 len by auto
    ultimately show ?thesis using False \<open>res = []\<close>
      by (simp add: partition_of_def classes_def)
  qed
next
  case False
  define U where "U = {..<n} - set (concat res)"
  define cls where "cls = (\<lambda>k. set (filter (\<lambda>v. mb ! v = k) [0..<length mb]))"
  have L: "0 < length res" using False by simp
  have bound: "\<And>i v. i < length res \<Longrightarrow> v \<in> set (res ! i) \<Longrightarrow> v < n"
  proof -
    fix i v assume "i < length res" and "v \<in> set (res ! i)"
    then have "v \<in> set (concat res)" by (metis in_set_conv_nth UN_I set_concat)
    with good show "v < n" unfolding good_in_def by blast
  qed
  have nonempty: "\<And>i. i < length res \<Longrightarrow> res ! i \<noteq> []"
    using good unfolding good_in_def by (metis nth_mem)
  have listed: "\<And>v. v \<in> set (concat res) \<Longrightarrow> \<exists>j<length res. v \<in> set (res ! j)"
  proof -
    fix v assume "v \<in> set (concat res)"
    then obtain c where "c \<in> set res" "v \<in> set c" by auto
    then show "\<exists>j<length res. v \<in> set (res ! j)" by (metis in_set_conv_nth)
  qed
  have lab: "\<And>v. v < n \<Longrightarrow> mb ! v < length res"
  proof -
    fix v assume v: "v < n"
    show "mb ! v < length res"
    proof (cases "v \<in> set (concat res)")
      case True
      from listed[OF this] inn show ?thesis by auto
    next
      case False
      with out v L show ?thesis by simp
    qed
  qed
  have cls_eq: "cls i = set (res ! i) \<union> (if i = 0 then U else {})" if i: "i < length res" for i
  proof
    show "cls i \<subseteq> set (res ! i) \<union> (if i = 0 then U else {})"
    proof
      fix v assume "v \<in> cls i"
      then have v: "v < n" "mb ! v = i" unfolding cls_def using len by auto
      show "v \<in> set (res ! i) \<union> (if i = 0 then U else {})"
      proof (cases "v \<in> set (concat res)")
        case True
        from listed[OF this] obtain j where j: "j < length res" "v \<in> set (res ! j)" by blast
        with inn v(2) have "j = i" by auto
        with j show ?thesis by simp
      next
        case False
        with out v have "i = 0" by auto
        with False v(1) show ?thesis by (simp add: U_def)
      qed
    qed
    show "set (res ! i) \<union> (if i = 0 then U else {}) \<subseteq> cls i"
    proof
      fix v assume "v \<in> set (res ! i) \<union> (if i = 0 then U else {})"
      then consider "v \<in> set (res ! i)" | "i = 0" "v \<in> U" by (auto split: if_splits)
      then show "v \<in> cls i"
      proof cases
        case 1
        with i inn bound[OF i] show ?thesis unfolding cls_def using len by auto
      next
        case 2
        with out show ?thesis unfolding cls_def U_def using len by auto
      qed
    qed
  qed
  have labels: "set mb = {..<length res}"
  proof
    show "set mb \<subseteq> {..<length res}" using lab len by (auto simp: in_set_conv_nth)
    show "{..<length res} \<subseteq> set mb"
    proof
      fix i assume "i \<in> {..<length res}"
      then have i: "i < length res" by simp
      from nonempty[OF i] obtain v where v: "v \<in> set (res ! i)" by (cases "res ! i") auto
      with inn i bound[OF i v] len show "i \<in> set mb" by (metis nth_mem)
    qed
  qed
  have tl: "set ` set (tl res) = (\<lambda>i. set (res ! i)) ` {1..<length res}"
  proof -
    have "set (tl res) = (\<lambda>i. res ! i) ` {1..<length res}"
    proof
      show "set (tl res) \<subseteq> (\<lambda>i. res ! i) ` {1..<length res}"
      proof
        fix c assume "c \<in> set (tl res)"
        then obtain j where j: "j < length (tl res)" "c = tl res ! j"
          by (auto simp: in_set_conv_nth)
        then have "c = res ! Suc j" "Suc j \<in> {1..<length res}"
          using False by (simp_all add: nth_tl)
        then show "c \<in> (\<lambda>i. res ! i) ` {1..<length res}" by blast
      qed
      show "(\<lambda>i. res ! i) ` {1..<length res} \<subseteq> set (tl res)"
      proof
        fix c assume "c \<in> (\<lambda>i. res ! i) ` {1..<length res}"
        then obtain i where i: "1 \<le> i" "i < length res" "c = res ! i" by auto
        then obtain j where "i = Suc j" by (cases i) auto
        with i have "c = tl res ! j" "j < length (tl res)" by (simp_all add: nth_tl)
        then show "c \<in> set (tl res)" by (metis nth_mem)
      qed
    qed
    then show ?thesis by (simp add: image_image)
  qed
  have split: "{..<length res} = insert 0 {1..<length res}" using L by auto
  have "partition_of mb = cls ` {..<length res}"
    unfolding partition_of_def cls_def labels ..
  also have "\<dots> = insert (cls 0) (cls ` {1..<length res})"
    unfolding split by simp
  also have "cls 0 = set (hd res) \<union> U"
    using cls_eq[OF L] False by (simp add: hd_conv_nth)
  also have "cls ` {1..<length res} = (\<lambda>i. set (res ! i)) ` {1..<length res}"
    by (rule image_cong) (use cls_eq in auto)
  finally show ?thesis
    using False unfolding classes_def tl U_def by simp
qed

lemma radicchi_labelled:
  assumes "simple_graph G" and "measure' = ''weak'' \<or> measure' = ''strong''"
  shows "\<exists>r1 r2 m1 m2.
      radicchi_internal io1 G ((graph_copy G)\<lparr>vs_id := [0..<vcount (graph_copy G)]\<rparr>) 0 measure'
         (if measure' = ''weak'' then 4 else 3) = Inr r1
    \<and> radicchi_internal io2 G ((graph_copy G)\<lparr>vs_id := [0..<vcount (graph_copy G)]\<rparr>) 0 measure'
         (if measure' = ''weak'' then 4 else 3) = Inr r2
    \<and> good_in {..<vcount G} r1 \<and> good_in {..<vcount G} r2 \<and> same_groups r1 r2
    \<and> radicchi io1 G measure' = Inr m1 \<and> radicchi io2 G measure' = Inr m2
    \<and> length m1 = vcount G \<and> length m2 = vcount G
    \<and> (\<forall>i<length r1. \<forall>v\<in>set (r1 ! i). m1 ! v = i)
    \<and> (\<forall>v<vcount G. v \<notin> set (concat r1) \<longrightarrow> m1 ! v = 0)
    \<and> (\<forall>i<length r2. \<forall>v\<in>set (r2 ! i). m2 ! v = i)
    \<and> (\<forall>v<vcount G. v \<notin> set (concat r2) \<longrightarrow> m2 ! v = 0)"
proof -
  let ?g = "(graph_copy G)\<lparr>vs_id := [0..<vcount (graph_copy G)]\<rparr>"
  let ?c = "if measure' = ''weak'' then 4 else 3 :: nat"
  from radicchi_results[OF assms(1), of io1 measure' ?c io2] obtain r1 r2 where
    r: "radicchi_internal io1 G ?g 0 measure' ?c = Inr r1"
       "radicchi_internal io2 G ?g 0 measure' ?c = Inr r2"
       "good_in {..<vcount G} r1" "good_in {..<vcount G} r2" "same_groups r1 r2"
    by blast
  from radicchi_labels[OF r(3)] obtain m1 where
    m1: "label_groups (enumerate 0 r1) (replicate (vcount G) 0) = Inr m1" "length m1 = vcount G"
        "\<forall>i<length r1. \<forall>v\<in>set (r1 ! i). m1 ! v = i"
        "\<forall>v<vcount G. v \<notin> set (concat r1) \<longrightarrow> m1 ! v = 0"
    by blast
  from radicchi_labels[OF r(4)] obtain m2 where
    m2: "label_groups (enumerate 0 r2) (replicate (vcount G) 0) = Inr m2" "length m2 = vcount G"
        "\<forall>i<length r2. \<forall>v\<in>set (r2 ! i). m2 ! v = i"
        "\<forall>v<vcount G. v \<notin> set (concat r2) \<longrightarrow> m2 ! v = 0"
    by blast
  have "radicchi io1 G measure' = Inr m1"
    using assms(2) r(1) m1(1) by (auto simp: radicchi_def Let_def ebind_def)
  moreover have "radicchi io2 G measure' = Inr m2"
    using assms(2) r(2) m2(1) by (auto simp: radicchi_def Let_def ebind_def)
  ultimately show ?thesis using r m1 m2 by blast
qed

text \<open>
  C9: for every simple input graph and either measure, the top-level call returns a
  membership list with one label per original vertex, and raises nothing. A vertex
  listed in the group at position \<open>i\<close> of the splitter's result gets the label \<open>i\<close>;
  a vertex that no group lists gets the label 0.
\<close>

theorem every_vertex_labelled:
  assumes "simple_graph G" and "measure' = ''weak'' \<or> measure' = ''strong''"
  shows "\<exists>result membership.
      radicchi_internal io G ((graph_copy G)\<lparr>vs_id := [0..<vcount (graph_copy G)]\<rparr>) 0 measure'
         (if measure' = ''weak'' then 4 else 3) = Inr result
    \<and> radicchi io G measure' = Inr membership
    \<and> length membership = vcount G
    \<and> (\<forall>i<length result. \<forall>v\<in>set (result ! i). membership ! v = i)
    \<and> (\<forall>v<vcount G. v \<notin> set (concat result) \<longrightarrow> membership ! v = 0)"
  using radicchi_labelled[OF assms, of io io] by blast

theorem every_vertex_labelled_witness:
  "simple_graph two_triangles
   \<and> (\<exists>result membership.
      radicchi_internal io0 two_triangles
         ((graph_copy two_triangles)\<lparr>vs_id := [0..<vcount (graph_copy two_triangles)]\<rparr>) 0 ''strong''
         (if ''strong'' = ''weak'' then 4 else 3) = Inr result
    \<and> radicchi io0 two_triangles ''strong'' = Inr membership
    \<and> length membership = vcount two_triangles
    \<and> (\<forall>i<length result. \<forall>v\<in>set (result ! i). membership ! v = i)
    \<and> (\<forall>v<vcount two_triangles. v \<notin> set (concat result) \<longrightarrow> membership ! v = 0))"
proof -
  have sg: "simple_graph two_triangles" by (simp add: simple_graph_def two_triangles_def)
  from every_vertex_labelled[OF sg, of "''strong''" io0] sg show ?thesis by blast
qed

text \<open>
  C5: for every simple input graph and either measure, two runs that visit the sets in
  different orders both return, and their membership lists stand for the same partition
  of the vertices (the labels themselves may differ).
\<close>

theorem deterministic_partition:
  assumes "simple_graph G" and "measure' = ''weak'' \<or> measure' = ''strong''"
  shows "\<exists>m1 m2. radicchi io1 G measure' = Inr m1 \<and> radicchi io2 G measure' = Inr m2
           \<and> partition_of m1 = partition_of m2"
proof -
  from radicchi_labelled[OF assms, of io1 io2] obtain r1 r2 m1 m2 where
    f: "good_in {..<vcount G} r1" "good_in {..<vcount G} r2" "same_groups r1 r2"
       "radicchi io1 G measure' = Inr m1" "radicchi io2 G measure' = Inr m2"
       "length m1 = vcount G" "length m2 = vcount G"
       "\<forall>i<length r1. \<forall>v\<in>set (r1 ! i). m1 ! v = i"
       "\<forall>v<vcount G. v \<notin> set (concat r1) \<longrightarrow> m1 ! v = 0"
       "\<forall>i<length r2. \<forall>v\<in>set (r2 ! i). m2 ! v = i"
       "\<forall>v<vcount G. v \<notin> set (concat r2) \<longrightarrow> m2 ! v = 0"
    by blast
  have "partition_of m1 = classes (vcount G) r1"
    by (rule partition_classes[OF f(1,6,8,9)])
  moreover have "partition_of m2 = classes (vcount G) r2"
    by (rule partition_classes[OF f(2,7,10,11)])
  moreover have "classes (vcount G) r1 = classes (vcount G) r2"
    by (rule same_groups_classes[OF f(3)])
  ultimately show ?thesis using f(4,5) by simp
qed

theorem deterministic_partition_witness:
  "simple_graph triangles_and_two
   \<and> radicchi io0 triangles_and_two ''strong'' = Inr [0, 0, 0, 1, 1, 1, 2, 3]
   \<and> radicchi io_rev triangles_and_two ''strong'' = Inr [0, 0, 0, 1, 1, 1, 3, 2]
   \<and> partition_of [0, 0, 0, 1, 1, 1, 2, 3] = partition_of [0, 0, 0, 1, 1, 1, 3, 2]"
proof -
  have sg: "simple_graph triangles_and_two"
    by (simp add: simple_graph_def triangles_and_two_def)
  have a: "radicchi io0 triangles_and_two ''strong'' = Inr [0, 0, 0, 1, 1, 1, 2, 3]"
    by code_simp
  have b: "radicchi io_rev triangles_and_two ''strong'' = Inr [0, 0, 0, 1, 1, 1, 3, 2]"
    by code_simp
  from deterministic_partition[OF sg, of "''strong''" io0 io_rev] a b sg
  show ?thesis by simp
qed

subsection \<open>The scorer in the recursion\<close>

declare radicchi_internal_fixed.simps [simp del] radicchi_while_fixed.simps [simp del]

lemma fixed_strong_aux:
  "clustering = 3 \<longrightarrow>
     radicchi_internal_fixed io G gr level m 3 = radicchi_internal io G gr level m clustering"
  "f = edge_clustering_coefficient_3 \<longrightarrow>
     radicchi_while_fixed io G level m 3 st = radicchi_while io G level m f st"
proof (induction io G gr level m clustering and io G level m f st
       rule: radicchi_internal_radicchi_while.induct)
  case (1 io G gr level measure' clustering)
  then show ?case
    by (simp add: radicchi_internal.simps radicchi_internal_fixed.simps)
next
  case (2 io G level measure' f st)
  show ?case
  proof
    assume f: "f = edge_clustering_coefficient_3"
    show "radicchi_while_fixed io G level measure' 3 st = radicchi_while io G level measure' f st"
    proof (cases "length (edges st) = 0")
      case True
      then show ?thesis
        by (subst radicchi_while.simps, subst radicchi_while_fixed.simps) simp
    next
      case False
      show ?thesis
      proof (cases "remove_weakest io f st")
        case (Inl e)
        with False f show ?thesis
          by (subst radicchi_while.simps, subst radicchi_while_fixed.simps) (simp add: ebind_def)
      next
        case (Inr st')
        let ?n = "length (graph_components (g st'))"
        show ?thesis
        proof (cases "n_components st' < ?n")
          case nogrow: False
          from "2.IH"(4)[OF False Inr refl nogrow] f
          have "radicchi_while_fixed io G level measure' 3 st' = radicchi_while io G level measure' f st'"
            by simp
          with False Inr nogrow f show ?thesis
            by (subst radicchi_while.simps, subst radicchi_while_fixed.simps)
               (simp add: ebind_def Let_def)
        next
          case grow: True
          show ?thesis
          proof (cases "prune_components io G (g st') measure'")
            case (Inl e)
            with False Inr grow f show ?thesis
              by (subst radicchi_while.simps, subst radicchi_while_fixed.simps)
                 (simp add: ebind_def Let_def)
          next
            case pr: (Inr r)
            show ?thesis
            proof (cases "pruned r")
              case np: False
              from "2.IH"(3)[OF False Inr refl grow pr refl np] f
              have "radicchi_while_fixed io G level measure' 3 (st'\<lparr>n_components := ?n\<rparr>)
                    = radicchi_while io G level measure' f (st'\<lparr>n_components := ?n\<rparr>)"
                by simp
              with False Inr grow pr np f show ?thesis
                by (subst radicchi_while.simps, subst radicchi_while_fixed.simps)
                   (simp add: ebind_def Let_def)
            next
              case p: True
              show ?thesis
              proof (cases "orig_communities r")
                case None
                with False Inr grow pr p f show ?thesis
                  by (subst radicchi_while.simps, subst radicchi_while_fixed.simps)
                     (simp add: ebind_def Let_def)
              next
                case oc: (Some oc)
                show ?thesis
                proof (cases "new_communities r")
                  case None
                  with False Inr grow pr p f oc show ?thesis
                    by (subst radicchi_while.simps, subst radicchi_while_fixed.simps)
                       (simp add: ebind_def Let_def)
                next
                  case nc: (Some nc)
                  show ?thesis
                  proof (cases "remaining r")
                    case None
                    with False Inr grow pr p f oc nc show ?thesis
                      by (subst radicchi_while.simps, subst radicchi_while_fixed.simps)
                         (simp add: ebind_def Let_def)
                  next
                    case rem: (Some rem)
                    let ?st = "st'\<lparr>n_components := ?n\<rparr>"
                    let ?F = "\<lambda>ri ic.
                          ebind (graph_subgraph (g ?st) (snd ic)) (\<lambda>s.
                          ebind (ri s) (\<lambda>subcommunities.
                          if length subcommunities = 0
                          then ebind (get oc (fst ic)) (\<lambda>c. Inr [c])
                          else Inr subcommunities))"
                    have parts: "map_err (?F (\<lambda>s. radicchi_internal_fixed io G s (level + 1) measure' 3))
                                   (enumerate 0 nc)
                               = map_err (?F (\<lambda>s. radicchi_internal io G s (level + 1) measure' 3))
                                   (enumerate 0 nc)"
                    proof (rule map_err_cong[OF refl], rule ebind_cong[OF refl])
                      fix ic s assume ic: "ic \<in> set (enumerate 0 nc)"
                        and s: "graph_subgraph (g ?st) (snd ic) = Inr s"
                      from "2.IH"(1)[OF False Inr refl grow pr refl p _ oc _ nc rem ic s]
                      have "radicchi_internal_fixed io G s (level + 1) measure' 3
                              = radicchi_internal io G s (level + 1) measure' 3"
                        by simp
                      then show "ebind (radicchi_internal_fixed io G s (level + 1) measure' 3)
                            (\<lambda>subcommunities. if length subcommunities = 0
                               then ebind (get oc (fst ic)) (\<lambda>c. Inr [c]) else Inr subcommunities)
                          = ebind (radicchi_internal io G s (level + 1) measure' 3)
                            (\<lambda>subcommunities. if length subcommunities = 0
                               then ebind (get oc (fst ic)) (\<lambda>c. Inr [c]) else Inr subcommunities)"
                        by simp
                    qed
                    have c1: "(length (edges st) = 0) = False" using False by simp
                    have c3: "(n_components st' < ?n) = True" using grow by simp
                    have c5: "pruned r = True" using p by simp
                    have eqf: "(if (3::nat) = 3 then edge_clustering_coefficient_3
                                else edge_clustering_coefficient_4) = f" using f by simp
                    have ebind_Inr: "\<And>x h. ebind (Inr x) h = h x" by (simp add: ebind_def)
                    show ?thesis
                      apply (subst radicchi_while.simps, subst radicchi_while_fixed.simps)
                      apply (simp only: c1 eqf Inr ebind_Inr Let_def c3 pr c5 oc nc rem
                          prod.case option.case if_True if_False parts)
                      apply (rule ebind_cong[OF refl])
                      apply (rule ebind_cong[OF refl])
                      apply (rule ebind_cong[OF refl])
                      subgoal premises prems for parts orem R
                        using "2.IH"(2)[OF False Inr refl grow pr refl p _ oc _ nc rem prems]
                        by simp
                      done
                  qed
                qed
              qed
            qed
          qed
        qed
      qed
    qed
  qed
qed

lemma fixed_strong: "radicchi_fixed io G ''strong'' = radicchi io G ''strong''"
  using fixed_strong_aux(1)[of 3 io G _ 0 "''strong''"]
  by (simp add: radicchi_fixed_def radicchi_def)

text \<open>
  C1, at a failing input: with measure 'weak' the top-level call scores with the
  SquareBased coefficient, but the recursive calls of \<open>radicchi_internal\<close> pass no
  \<open>clustering\<close> and score with the TriangleBased one. On the graph \<open>kite\<close> the code
  returns the membership [0,1,1,0,0,0,0,0], and the splitter with the scorer held fixed
  returns [0,2,2,1,1,1,0,0]. (With measure 'strong' the two agree on every graph,
  lemma \<open>fixed_strong\<close>.)
\<close>

theorem scorer_not_held_fixed:
  "radicchi io0 kite ''weak'' = Inr [0, 1, 1, 0, 0, 0, 0, 0]
   \<and> radicchi_fixed io0 kite ''weak'' = Inr [0, 2, 2, 1, 1, 1, 0, 0]"
  by code_simp

subsection \<open>The original graph is not changed\<close>

lemma frame_refl [simp]: "frame A h h"
  by (simp add: frame_def)

lemma frame_trans: "frame A h h1 \<Longrightarrow> frame A h1 h2 \<Longrightarrow> frame A h h2"
  by (auto simp: frame_def)

lemma lift_snd [simp]: "snd (lift r h) = h"
  by (simp add: lift_def split: sum.splits)

lemma lift_Inr: "lift r h = (Inr x, k) \<Longrightarrow> k = h"
  by (auto simp: lift_def split: sum.splits)

lemma hthen_frame:
  assumes "frame A h0 (snd r)"
    and "\<And>x k. r = (Inr x, k) \<Longrightarrow> frame A h0 k \<Longrightarrow> frame A h0 (snd (f x k))"
  shows "frame A h0 (snd (hthen r f))"
proof (cases r)
  case (Pair res k)
  with assms show ?thesis by (cases res) (auto simp: hthen_def)
qed

lemma map_h_frame:
  assumes "frame A h0 k"
    and "\<And>x k'. x \<in> set xs \<Longrightarrow> frame A h0 k' \<Longrightarrow> frame A h0 (snd (f x k'))"
  shows "frame A h0 (snd (map_h f xs k))"
  using assms
proof (induction xs arbitrary: k)
  case Nil
  then show ?case by simp
next
  case (Cons x xs)
  show ?case
    unfolding map_h.simps
  proof (rule hthen_frame)
    show "frame A h0 (snd (f x k))" using Cons.prems by simp
  next
    fix y k1 assume "frame A h0 k1"
    show "frame A h0 (snd (hthen (map_h f xs k1) (\<lambda>ys h2. (Inr (y # ys), h2))))"
    proof (rule hthen_frame)
      show "frame A h0 (snd (map_h f xs k1))"
        using Cons.IH[OF \<open>frame A h0 k1\<close>] Cons.prems(2) by simp
    qed simp
  qed
qed

lemma frame_put: "a \<in> A \<Longrightarrow> frame A h0 k \<Longrightarrow> frame A h0 (put a gr k)"
  by (auto simp: frame_def put_def)

lemma frame_fresh_call:
  assumes "frame {fresh k} (snd (alloc s k)) k'" and "frame A h0 k"
  shows "frame A h0 k'"
  using assms by (auto simp: frame_def alloc_def)

lemma frame_same_call:
  assumes "frame {a} k k'" and "frame {a} h0 k"
  shows "frame {a} h0 k'"
  using assms by (rule frame_trans[rotated])

lemma discard_edges_view:
  "discard_edges del (view h hs) = Inr st' \<Longrightarrow> gref (unview (gref hs) st') = gref hs"
  by (simp add: unview_def)

lemma remove_weakest_h_frame:
  assumes "frame {gref hs} h0 h"
  shows "frame {gref hs} h0 (snd (remove_weakest_h io f hs h))"
  unfolding remove_weakest_h_def Let_def
  by (intro hthen_frame) (auto dest!: lift_Inr intro: frame_put assms simp: assms)

lemma remove_weakest_h_gref:
  "remove_weakest_h io f hs h = (Inr hs', k) \<Longrightarrow> gref hs' = gref hs"
  by (auto simp: remove_weakest_h_def Let_def hthen_def lift_def unview_def
      split: sum.splits prod.splits)

lemma frame_main:
  "(\<forall>io G gr level m c h. gr < fresh h \<longrightarrow>
       frame {gr} h (snd (radicchi_internal_h n io G gr level m c h)))
   \<and> (\<forall>io G level m f hs h. gref hs < fresh h \<longrightarrow>
       frame {gref hs} h (snd (radicchi_while_h n io G level m f hs h)))"
proof (induction n)
  case 0
  then show ?case by simp
next
  case (Suc n)
  then have IH1: "\<And>io G gr level m c h. gr < fresh h \<Longrightarrow>
       frame {gr} h (snd (radicchi_internal_h n io G gr level m c h))"
    and IH2: "\<And>io G level m f hs h. gref hs < fresh h \<Longrightarrow>
       frame {gref hs} h (snd (radicchi_while_h n io G level m f hs h))"
    by blast+
  have 1: "frame {gr} h (snd (radicchi_internal_h (Suc n) io G gr level m c h))"
    if "gr < fresh h" for io G gr level m c h
    using IH2[of "unview gr (init_state (objs h gr))" h io G level m] that
    by (simp add: unview_def)
  have 2: "frame {gref hs} h (snd (radicchi_while_h (Suc n) io G level m f hs h))"
    if a: "gref hs < fresh h" for io G level m f hs h
  proof -
    have rec: "frame {gref hs} h (snd (radicchi_internal_h n io' G' (fst (alloc s k)) l m' c
                                       (snd (alloc s k))))"
      if "frame {gref hs} h k" for io' G' l m' c s k
    proof (rule frame_fresh_call[OF _ that])
      have "fst (alloc s k) < fresh (snd (alloc s k))" by (simp add: alloc_def)
      from IH1[OF this] show "frame {fresh k} (snd (alloc s k))
          (snd (radicchi_internal_h n io' G' (fst (alloc s k)) l m' c (snd (alloc s k))))"
        by (simp add: alloc_def)
    qed
    have whl: "frame {gref hs} h (snd (radicchi_while_h n io' G' l m' f' hs' k))"
      if "gref hs' = gref hs" and "frame {gref hs} h k" for io' G' l m' f' hs' k
    proof (rule frame_same_call[OF _ that(2)])
      have "gref hs' < fresh k" using that a by (simp add: frame_def)
      from IH2[OF this] that(1)
      show "frame {gref hs} k (snd (radicchi_while_h n io' G' l m' f' hs' k))" by simp
    qed
    show ?thesis
      apply (simp only: radicchi_while_h.simps)
      apply (auto simp: Let_def
          intro!: hthen_frame map_h_frame remove_weakest_h_frame rec whl
          dest!: lift_Inr dest: remove_weakest_h_gref
          split: option.splits)
          apply (erule remove_weakest_h_gref)+
      done
  qed
  from 1 2 show ?case by blast
qed

text \<open>
  C8: the object of the original graph is never changed. For every store, every address
  \<open>G\<close> of an object in it, every measure, iteration order and amount of fuel (so, at
  every point where a run can be stopped, at every recursion level, and also when an
  exception ends the run), the object at \<open>G\<close> after the top-level call is the object
  before it: same vertices, same edges, same degrees. The edge deletions go to the copy
  and to the subgraph objects, as the witness shows.
\<close>

theorem original_graph_unchanged:
  assumes "G < fresh h"
  shows "objs (snd (radicchi_h fuel io G measure' h)) G = objs h G
       \<and> vcount (objs (snd (radicchi_h fuel io G measure' h)) G) = vcount (objs h G)
       \<and> es (objs (snd (radicchi_h fuel io G measure' h)) G) = es (objs h G)
       \<and> graph_degree (objs (snd (radicchi_h fuel io G measure' h)) G) = graph_degree (objs h G)"
proof -
  let ?gr = "fst (alloc (graph_copy (objs h G)) h)"
  let ?h1 = "snd (alloc (graph_copy (objs h G)) h)"
  let ?h2 = "put ?gr ((objs ?h1 ?gr)\<lparr>vs_id := [0..<vcount (objs ?h1 ?gr)]\<rparr>) ?h1"
  have gr: "?gr = fresh h" by (simp add: alloc_def)
  have f0: "frame {?gr} h ?h2" by (simp add: frame_def alloc_def put_def)
  have lt: "?gr < fresh ?h2" by (simp add: alloc_def put_def)
  have call: "frame {?gr} h (snd (radicchi_internal_h fuel io G ?gr 0 m c ?h2))" for m c
    using frame_main[of fuel] lt f0 by (blast intro: frame_trans)
  have first: "frame {?gr} h
      (snd (if measure' = ''weak'' then radicchi_internal_h fuel io G ?gr 0 measure' 4 ?h2
            else if measure' = ''strong'' then radicchi_internal_h fuel io G ?gr 0 measure' 3 ?h2
            else (Inl (Raised InvalidMeasure), ?h2)))"
    using call[of measure' 4] call[of measure' 3] f0
    by (simp only: snd_conv split: if_split) blast
  have "frame {?gr} h (snd (radicchi_h fuel io G measure' h))"
    unfolding radicchi_h_def Let_def
  proof (rule hthen_frame[OF first])
    fix result k assume "frame {?gr} h k"
    then show "frame {?gr} h
        (snd (lift (label_groups (enumerate 0 result) (replicate (vcount (objs k G)) 0)) k))"
      by (simp only: lift_snd)
  qed
  with assms gr have "objs (snd (radicchi_h fuel io G measure' h)) G = objs h G"
    by (simp add: frame_def)
  then show ?thesis by simp
qed

theorem original_graph_unchanged_witness:
  "0 < fresh store0
   \<and> fst (radicchi_h 20 io0 0 ''strong'' store0) = Inr [0, 0, 0, 1, 1, 1]
   \<and> es (objs (snd (radicchi_h 20 io0 0 ''strong'' store0)) 1)
       = [(0,1),(0,2),(1,2),(3,4),(3,5),(4,5)]
   \<and> objs (snd (radicchi_h 20 io0 0 ''strong'' store0)) 0 = two_triangles"
proof -
  have a: "0 < fresh store0" by (simp add: store0_def)
  have b: "fst (radicchi_h 20 io0 0 ''strong'' store0) = Inr [0, 0, 0, 1, 1, 1]"
    by code_simp
  have c: "es (objs (snd (radicchi_h 20 io0 0 ''strong'' store0)) 1)
       = [(0,1),(0,2),(1,2),(3,4),(3,5),(4,5)]"
    by code_simp
  have d: "objs store0 0 = two_triangles" by (simp add: store0_def)
  from original_graph_unchanged[OF a, of 20 io0 "''strong''"] a b c d show ?thesis by simp
qed

end
